theory Spec2Isabelle
  imports Complex_Main "HOL-Library.Char_ord" "HOL-Library.List_Lexorder" "HOL-Library.AList"
begin

section \<open>The identifier generator: \<open>LoopFirebaseServer.makeId\<close>\<close>

text \<open>
  Strings are \<open>char list\<close>s; \<open><\<close> on them is the lexicographic order of
  \<open>List_Lexorder\<close> over the character codes (\<open>Char_ord\<close>), which is how JavaScript
  compares strings of ASCII characters.

  A time is an \<open>int\<close>: JavaScript numbers hold every integer of magnitude below
  \<open>2 ^ 53\<close> exactly, and \<open>Math.floor(time / 64)\<close> is then the floor division
  \<open>time div 64\<close>. The remainder \<open>time % 64\<close> takes the sign of \<open>time\<close>.
\<close>

definition CHARS :: string where
  "CHARS = ''0123456789ABCDEFGHIJKLMNOPQRSTUVWXYZ_abcdefghijklmnopqrstuvwxyz~''"

text \<open>\<open>a % b\<close> for a positive \<open>b\<close>: truncating, so never positive for a negative \<open>a\<close>.\<close>

definition jsRem :: "int \<Rightarrow> int \<Rightarrow> int" where
  "jsRem a b = (if 0 \<le> a then a mod b else - ((- a) mod b))"

text \<open>\<open>s.charAt(i)\<close>: the one-character string at \<open>i\<close>, the empty string out of range.\<close>

definition charAt :: "string \<Rightarrow> int \<Rightarrow> string" where
  "charAt s i = (if 0 \<le> i \<and> i < int (length s) then [s ! nat i] else [])"

text \<open>
  The array \<open>lastRandChars\<close> is a JavaScript object: a property that was never written
  reads as \<open>undefined\<close> (\<open>None\<close> here), and the index \<open>-1\<close> is a property like any
  other. A slot that was written holds a number or \<open>NaN\<close>.
\<close>

datatype jsnum = NaN | Num int

type_synonym jsarray = "int \<rightharpoonup> jsnum"

text \<open>The index \<open>charAt\<close> makes of its argument: \<open>undefined\<close> and \<open>NaN\<close> become 0.\<close>

definition toIndex :: "jsnum option \<Rightarrow> int" where
  "toIndex v = (case v of None \<Rightarrow> 0 | Some NaN \<Rightarrow> 0 | Some (Num n) \<Rightarrow> n)"

text \<open>The value \<open>x++\<close> stores: \<open>undefined\<close> and \<open>NaN\<close> give \<open>NaN\<close>.\<close>

definition postIncr :: "jsnum option \<Rightarrow> jsnum" where
  "postIncr v = (case v of None \<Rightarrow> NaN | Some NaN \<Rightarrow> NaN | Some (Num n) \<Rightarrow> Num (n + 1))"

record gen =
  lastRandChars :: jsarray
  lastTime :: int

datatype error =
    TimestampNotConverted  \<comment> \<open>\<open>Error("We should have converted the entire timestamp.")\<close>\<close>
  | LengthNot20            \<comment> \<open>\<open>Error("Length should be 20.")\<close>\<close>
  | TypeError              \<comment> \<open>raised by the language: destructuring \<open>null\<close>, \<open>Object.assign(null, ...)\<close>\<close>
  | NoValueExpected        \<comment> \<open>\<open>Error("No value expected for .delete()")\<close>\<close>
  | REQUEST_ERROR          \<comment> \<open>the rejection \<open>{request, name: "REQUEST_ERROR"}\<close>\<close>

text \<open>The state \<open>makeId\<close> sets up when \<open>makeId.CHARS\<close> is still undefined.\<close>

definition initGen :: gen where
  "initGen = \<lparr>lastRandChars = Map.empty, lastTime = 0\<rparr>"

text \<open>
  The loop \<open>for (let i = 7; i >= 0; i--)\<close>: the first argument counts the iterations
  left; each one puts a character in front (\<open>unshift\<close>) and divides the time.
\<close>

fun timeStampLoop :: "nat \<Rightarrow> string list \<times> int \<Rightarrow> string list \<times> int" where
  "timeStampLoop 0 (timeStampChars, time) = (timeStampChars, time)"
| "timeStampLoop (Suc n) (timeStampChars, time) =
     timeStampLoop n (charAt CHARS (jsRem time 64) # timeStampChars, time div 64)"

text \<open>
  The loop \<open>for (; i >= 0 && lastRandChars[i] === 63; i--) lastRandChars[i] = 0\<close>; it
  returns the index it stops at, which is \<open>-1\<close> when every slot held 63.
\<close>

function carryLoop :: "int \<Rightarrow> jsarray \<Rightarrow> int \<times> jsarray" where
  "carryLoop i a =
     (if 0 \<le> i \<and> a i = Some (Num 63) then carryLoop (i - 1) (a(i \<mapsto> Num 0)) else (i, a))"
  by pat_completeness auto
termination
  by (relation "measure (\<lambda>(i, a). nat (i + 1))") auto

text \<open>The branch \<open>if (duplicateTime)\<close>: the carry loop, then \<open>lastRandChars[i]++\<close>.\<close>

definition incrementSuffix :: "jsarray \<Rightarrow> jsarray" where
  "incrementSuffix a = (case carryLoop 11 a of (i, a') \<Rightarrow> a'(i \<mapsto> postIncr (a' i)))"

text \<open>
  The \<open>else\<close> branch: \<open>lastRandChars[i] = Math.floor(Math.random() * 64)\<close> for
  \<open>i = 0 .. 11\<close>. \<open>random i\<close> is what the \<open>i\<close>-th call of \<open>Math.random()\<close> returns, a
  number in \<open>[0, 1)\<close>; multiplying a binary fraction by 64 is exact.
\<close>

definition randomSuffix :: "(nat \<Rightarrow> real) \<Rightarrow> jsarray \<Rightarrow> jsarray" where
  "randomSuffix random a = fold (\<lambda>i a. a(int i \<mapsto> Num \<lfloor>random i * 64\<rfloor>)) [0..<12] a"

text \<open>The loop \<open>id += CHARS.charAt(lastRandChars[i])\<close> for \<open>i = 0 .. 11\<close>.\<close>

definition appendSuffix :: "jsarray \<Rightarrow> string \<Rightarrow> string" where
  "appendSuffix a ident = fold (\<lambda>i s. s @ charAt CHARS (toIndex (a (int i)))) [0..<12] ident"

text \<open>
  \<open>makeId(time)\<close>. The first argument is the state kept on the function object
  (\<open>None\<close> while \<open>makeId.CHARS\<close> is undefined); the result is what the call returns or
  throws, with the state it leaves: \<open>lastTime\<close> is written before either \<open>throw\<close>.
\<close>

definition makeId :: "gen option \<Rightarrow> (nat \<Rightarrow> real) \<Rightarrow> int \<Rightarrow> (error + string) \<times> gen" where
  "makeId self random time =
     (let g = (case self of None \<Rightarrow> initGen | Some g \<Rightarrow> g);
          duplicateTime = (time = lastTime g);
          g = g\<lparr>lastTime := time\<rparr>
      in case timeStampLoop 8 ([], time) of
           (timeStampChars, rest) \<Rightarrow>
             if rest \<noteq> 0 then (Inl TimestampNotConverted, g)
             else
               let a = (if duplicateTime then incrementSuffix (lastRandChars g)
                        else randomSuffix random (lastRandChars g));
                   g = g\<lparr>lastRandChars := a\<rparr>;
                   ident = appendSuffix a (concat timeStampChars)
               in if length ident \<noteq> 20 then (Inl LengthNot20, g) else (Inr ident, g))"

text \<open>The values of \<open>Math.random()\<close>: numbers in \<open>[0, 1)\<close>.\<close>

definition randomOk :: "(nat \<Rightarrow> real) \<Rightarrow> bool" where
  "randomOk random = list_all (\<lambda>i. 0 \<le> random i \<and> random i < 1) [0..<12]"

text \<open>
  What every state the generator reaches satisfies: a suffix slot that holds a number
  holds one of \<open>0 .. 63\<close>. (Slots may still be \<open>undefined\<close> or \<open>NaN\<close>: a first call at
  time 0 takes the \<open>duplicateTime\<close> branch on the empty array.)
\<close>

definition slotOk :: "jsnum option \<Rightarrow> bool" where
  "slotOk v = (case v of Some (Num n) \<Rightarrow> 0 \<le> n \<and> n \<le> 63 | _ \<Rightarrow> True)"

definition genOk :: "gen option \<Rightarrow> bool" where
  "genOk self = (case self of None \<Rightarrow> True
                 | Some g \<Rightarrow> list_all (\<lambda>i. slotOk (lastRandChars g (int i))) [0..<12])"

text \<open>
  Two reference functions for the proofs below: the base-64 numeral of \<open>n\<close> digits of
  a non-negative time, most significant digit first, and the twelve characters that
  the suffix slots stand for.
\<close>

fun encode :: "nat \<Rightarrow> int \<Rightarrow> string" where
  "encode 0 t = []"
| "encode (Suc n) t = encode n (t div 64) @ [CHARS ! nat (t mod 64)]"

definition suffixString :: "jsarray \<Rightarrow> string" where
  "suffixString a = concat (map (\<lambda>i. charAt CHARS (toIndex (a (int i)))) [0..<12])"

section \<open>Range bounds from the generator: \<open>LoopFirebaseServer.requestChat\<close>\<close>

text \<open>\<open>MAX_LIMIT\<close>, the largest query limit: \<open>2 ^ 31 - 1\<close>.\<close>

definition MAX_LIMIT :: int where
  "MAX_LIMIT = 2147483647"

text \<open>\<open>xs.join(sep)\<close> on an array of strings.\<close>

fun join :: "string \<Rightarrow> string list \<Rightarrow> string" where
  "join sep [] = []"
| "join sep [x] = x"
| "join sep (x # y # ys) = x @ sep @ join sep (y # ys)"

text \<open>
  \<open>_buildQuery(object)\<close>: the object is the list of its properties in the order they
  were written, which is the order \<open>Object.keys\<close> lists them in.
\<close>

definition buildQuery :: "(string \<times> string) list \<Rightarrow> string" where
  "buildQuery object = join ''&'' (map (\<lambda>(key, val). key @ ''='' @ val) object)"

text \<open>
  The decimal numeral a template literal prints for an integer of magnitude below
  \<open>10 ^ 21\<close>. (From \<open>10 ^ 21\<close> on JavaScript prints a number in exponent form,
  which is outside this model; \<open>MAX_LIMIT\<close> is far below.)
\<close>

function showNat :: "nat \<Rightarrow> string" where
  "showNat n = (if n < 10 then [''0123456789'' ! n]
                else showNat (n div 10) @ [''0123456789'' ! (n mod 10)])"
  by pat_completeness auto
termination
  by (relation "measure id") auto

definition numberToString :: "int \<Rightarrow> string" where
  "numberToString n = (if n < 0 then CHR ''-'' # showNat (nat (- n)) else showNat (nat n))"

text \<open>A string between double quotes, as the query values are written.\<close>

definition quoted :: "string \<Rightarrow> string" where
  "quoted s = [CHR 0x22] @ s @ [CHR 0x22]"

text \<open>
  \<open>requestChat(startTime, endTime, limit)\<close> up to the query string it hands to
  \<open>this._client.get\<close>. The object literal evaluates \<open>startAt\<close> first, then \<open>endAt\<close>:
  two calls of \<open>makeId\<close> on the shared generator state, each with its own values of
  \<open>Math.random()\<close>. A throw of the first call leaves the second one out.
\<close>

definition requestChat ::
  "gen option \<Rightarrow> (nat \<Rightarrow> real) \<Rightarrow> (nat \<Rightarrow> real) \<Rightarrow> int \<Rightarrow> int \<Rightarrow> int \<Rightarrow> (error + string) \<times> gen" where
  "requestChat self random1 random2 startTime endTime limit =
     (case makeId self random1 (max 0 (startTime - 1)) of
        (Inl e, g1) \<Rightarrow> (Inl e, g1)
      | (Inr startId, g1) \<Rightarrow>
          (case makeId (Some g1) random2 (endTime + 1) of
             (Inl e, g2) \<Rightarrow> (Inl e, g2)
           | (Inr endId, g2) \<Rightarrow>
               (Inr (buildQuery
                  [(''format'', ''export''),
                   (''orderBy'', quoted ''$key''),
                   (''startAt'', quoted (''chat!'' @ startId)),
                   (''endAt'', quoted (''chat!'' @ endId)),
                   (''limitToLast'', numberToString (if 0 < limit then limit else MAX_LIMIT))]),
                g2)))"

section \<open>Notifications: \<open>on\<close>, \<open>off\<close>, \<open>emit\<close> and the callbacks of \<open>connect\<close>\<close>

text \<open>
  \<open>_handlers\<close> starts as \<open>{}\<close>: an object whose own properties are the event names
  registered so far, each holding the array of its callbacks, and which inherits the
  properties of \<open>Object.prototype\<close>. An own property hides an inherited one. A callback
  is a function object, known to the arrays by its identity (a \<open>nat\<close>).
\<close>

type_synonym handlers = "string \<rightharpoonup> nat list"

definition objectPrototypeNames :: "string list" where
  "objectPrototypeNames =
     [''constructor'', ''__defineGetter__'', ''__defineSetter__'', ''hasOwnProperty'',
      ''__lookupGetter__'', ''__lookupSetter__'', ''isPrototypeOf'', ''propertyIsEnumerable'',
      ''toString'', ''valueOf'', ''__proto__'', ''toLocaleString'']"

definition inherited :: "string \<Rightarrow> bool" where
  "inherited eventName = (eventName \<in> set objectPrototypeNames)"

text \<open>
  \<open>on\<close>: \<open>eventName in this._handlers\<close> holds for own and for inherited names, and an
  inherited value (a function, or \<open>Object.prototype\<close> itself) has no \<open>push\<close>: a
  \<open>TypeError\<close>.
\<close>

definition on :: "handlers \<Rightarrow> string \<Rightarrow> nat \<Rightarrow> error + handlers" where
  "on hs eventName callback =
     (case hs eventName of
        Some l \<Rightarrow> Inr (hs(eventName \<mapsto> l @ [callback]))
      | None \<Rightarrow> if inherited eventName then Inl TypeError
                else Inr (hs(eventName \<mapsto> [callback])))"

text \<open>
  \<open>off\<close>: \<open>l.splice(l.indexOf(callback), 1)\<close> removes the first occurrence from the
  array itself; an inherited value has no \<open>includes\<close>.
\<close>

definition off :: "handlers \<Rightarrow> string \<Rightarrow> nat \<Rightarrow> error + handlers" where
  "off hs eventName callback =
     (case hs eventName of
        Some l \<Rightarrow> Inr (if callback \<in> set l then hs(eventName \<mapsto> remove1 callback l) else hs)
      | None \<Rightarrow> if inherited eventName then Inl TypeError else Inr hs)"

text \<open>
  What calling a callback does is given by \<open>call\<close>: from the argument, the handlers
  and the state of the world outside the hub it returns the exception it throws, if
  any, and the handlers and the world as it leaves them. A callback reaches the
  handlers through \<open>on\<close> and \<open>off\<close>, which change the arrays in place.
\<close>

type_synonym ('p, 'w, 'x) calls =
  "nat \<Rightarrow> 'p \<Rightarrow> handlers \<times> 'w \<Rightarrow> 'x option \<times> handlers \<times> 'w"

text \<open>
  What leaves \<open>emit\<close>: the \<open>TypeError\<close> of \<open>for...of\<close> over a value that is not
  iterable, or what a callback threw.
\<close>

datatype 'x thrown = NotIterable | Thrown 'x

text \<open>
  The loop \<open>for (let callback of array) callback(argument)\<close>. The array iterator
  keeps an index into the array itself: each step compares the index with the length
  the array has then and reads the element that stands there then, so the loop sees
  what the callbacks push and splice. A throw leaves the loop and the function. The
  loop need not end (a callback may register another one every time), so not returning
  is the value \<open>None\<close>.
\<close>

partial_function (option) forOf ::
  "('p, 'w, 'x) calls \<Rightarrow> string \<Rightarrow> nat \<Rightarrow> 'p \<Rightarrow> handlers \<times> 'w \<Rightarrow> ('x thrown option \<times> handlers \<times> 'w) option" where
  "forOf call eventName i argument s =
     (case fst s eventName of
        None \<Rightarrow> Some (None, s)
      | Some l \<Rightarrow>
          if i < length l then
            (case call (l ! i) argument s of
               (Some x, s') \<Rightarrow> Some (Some (Thrown x), s')
             | (None, s') \<Rightarrow> forOf call eventName (Suc i) argument s')
          else Some (None, s))"

text \<open>
  \<open>FirebaseClient.emit\<close>: the array is \<open>this._handlers[eventName] || []\<close>, the
  registered array (always truthy), a new empty array for a name that is not defined,
  or the inherited value, which is not iterable.
\<close>

definition emit ::
  "('p, 'w, 'x) calls \<Rightarrow> string \<Rightarrow> 'p \<Rightarrow> handlers \<times> 'w \<Rightarrow> ('x thrown option \<times> handlers \<times> 'w) option" where
  "emit call eventName argument s =
     (case fst s eventName of
        Some l \<Rightarrow> forOf call eventName 0 argument s
      | None \<Rightarrow> if inherited eventName then Some (Some NotIterable, s) else Some (None, s))"

text \<open>\<open>LoopFirebaseServer._emit\<close>, the same text on the server's own \<open>_handlers\<close>.\<close>

definition server_emit ::
  "('p, 'w, 'x) calls \<Rightarrow> string \<Rightarrow> 'p \<Rightarrow> handlers \<times> 'w \<Rightarrow> ('x thrown option \<times> handlers \<times> 'w) option" where
  "server_emit call eventName argument s =
     (case fst s eventName of
        Some l \<Rightarrow> forOf call eventName 0 argument s
      | None \<Rightarrow> if inherited eventName then Some (Some NotIterable, s) else Some (None, s))"

text \<open>
  A run of callbacks: \<open>normalRun call eventName argument l ss k\<close> says that the first
  \<open>k\<close> callbacks of the array \<open>l\<close> are called one after the other with the argument,
  callback \<open>j\<close> in the state \<open>ss j\<close> and leaving the state \<open>ss (j + 1)\<close> without a throw,
  and that in each of these states the array of the event name is \<open>l\<close>: none of them
  registers or removes a handler of that name.
\<close>

definition normalRun ::
  "('p, 'w, 'x) calls \<Rightarrow> string \<Rightarrow> 'p \<Rightarrow> nat list \<Rightarrow> (nat \<Rightarrow> handlers \<times> 'w) \<Rightarrow> nat \<Rightarrow> bool" where
  "normalRun call eventName argument l ss k =
     (k \<le> length l \<and>
      (\<forall>j\<le>k. fst (ss j) eventName = Some l) \<and>
      (\<forall>j<k. call (l ! j) argument (ss j) = (None, ss (Suc j))))"

text \<open>
  To observe which callbacks a run calls, and with what, the world can carry a log:
  \<open>logged call\<close> does what \<open>call\<close> does and appends the callback and its argument to
  the log.
\<close>

definition logged :: "('p, 'w, 'x) calls \<Rightarrow> ('p, (nat \<times> 'p) list \<times> 'w, 'x) calls" where
  "logged call callback argument s =
     (case s of (hs, trace, w) \<Rightarrow>
        (case call callback argument (hs, w) of
           (x, hs', w') \<Rightarrow> (x, hs', trace @ [(callback, argument)], w')))"

text \<open>
  Examples of callbacks, for a world that counts calls. In \<open>firstThrows\<close> the callback 1
  throws; in \<open>removesItself\<close> the callback 1 calls \<open>off("put", callback1)\<close> and returns.
  Every other callback returns and adds one to the count.
\<close>

definition firstThrows :: "(string, nat, string) calls" where
  "firstThrows callback argument s =
     (case s of (hs, w) \<Rightarrow> if callback = 1 then (Some ''boom'', hs, w) else (None, hs, Suc w))"

definition removesItself :: "(string, nat, string) calls" where
  "removesItself callback argument s =
     (case s of (hs, w) \<Rightarrow>
        if callback = 1 then
          (case off hs ''put'' 1 of Inr hs' \<Rightarrow> (None, hs', w) | Inl e \<Rightarrow> (Some ''TypeError'', hs, w))
        else (None, hs, Suc w))"

subsection \<open>The promise of \<open>connect()\<close> and the callbacks \<open>onerror\<close>, \<open>onopen\<close>\<close>












section \<open>Records: composite keys, \<open>update\<close>, \<open>delete\<close>, \<open>requestRoomData\<close>\<close>

text \<open>
  A JavaScript value as \<open>JSON.parse\<close> returns it, or \<open>undefined\<close>. An object is the
  list of its properties in insertion order. \<open>JBoxed v props\<close> is what
  \<open>Object.assign\<close> returns for a target that is not a plain object: the array or the
  wrapper of the primitive \<open>v\<close>, with the named properties \<open>props\<close> added. Numbers
  are integers here. Characters are 8-bit, so of the line terminators only the line
  feed and the carriage return exist in this model.
\<close>

datatype jsvalue =
    JUndefined
  | JNull
  | JBool bool
  | JNum int
  | JStr string
  | JArr "jsvalue list"
  | JObj "(string \<times> jsvalue) list"
  | JBoxed jsvalue "(string \<times> jsvalue) list"

definition lineTerminator :: "char \<Rightarrow> bool" where
  "lineTerminator c = (c = CHR 0x0A \<or> c = CHR 0x0D)"

text \<open>
  \<open>key.match(/^([^!]+)!(.+)$/)\<close>: \<open>[^!]+\<close> cannot cross a \<open>!\<close>, so the first group is
  the text before the first \<open>!\<close> and must not be empty; the second group is the text
  after it, not empty and, since \<open>.\<close> matches no line terminator and \<open>$\<close> only the end,
  free of line terminators. \<open>None\<close> is the \<open>null\<close> of a failed match.
\<close>

definition keyMatch :: "string \<Rightarrow> (string \<times> string) option" where
  "keyMatch key =
     (let ty = takeWhile (\<lambda>c. c \<noteq> CHR ''!'') key;
          rest = dropWhile (\<lambda>c. c \<noteq> CHR ''!'') key
      in if ty = [] then None
         else case rest of
                [] \<Rightarrow> None
              | _ # ident \<Rightarrow>
                  if ident = [] \<or> list_ex lineTerminator ident then None else Some (ty, ident))"

text \<open>
  \<open>Object.assign(target, source)\<close>: a \<open>TypeError\<close> for \<open>null\<close> and \<open>undefined\<close>;
  otherwise each property of the source is written to the target, replacing a property
  of that name where it stands or adding it at the end.
\<close>

definition assignAll :: "(string \<times> jsvalue) list \<Rightarrow> (string \<times> jsvalue) list \<Rightarrow> (string \<times> jsvalue) list" where
  "assignAll source props = fold (\<lambda>(k, v). AList.update k v) source props"

definition objectAssign :: "jsvalue \<Rightarrow> (string \<times> jsvalue) list \<Rightarrow> error + jsvalue" where
  "objectAssign target source =
     (case target of
        JUndefined \<Rightarrow> Inl TypeError
      | JNull \<Rightarrow> Inl TypeError
      | JObj props \<Rightarrow> Inr (JObj (assignAll source props))
      | JBoxed v props \<Rightarrow> Inr (JBoxed v (assignAll source props))
      | v \<Rightarrow> Inr (JBoxed v (assignAll source [])))"

text \<open>
  \<open>_formatRecord(key, record)\<close>: destructuring the \<open>null\<close> of a failed match throws a
  \<open>TypeError\<close>; \<open>{ id, type }\<close> lists \<open>id\<close> first.
\<close>

definition formatRecord :: "string \<Rightarrow> jsvalue \<Rightarrow> error + jsvalue" where
  "formatRecord key record =
     (case keyMatch key of
        None \<Rightarrow> Inl TypeError
      | Some (ty, ident) \<Rightarrow> objectAssign record [(''id'', JStr ident), (''type'', JStr ty)])"

text \<open>Reading a property: \<open>undefined\<close> when it is not there.\<close>

definition getProp :: "jsvalue \<Rightarrow> string \<Rightarrow> jsvalue" where
  "getProp v k =
     (case v of
        JObj props \<Rightarrow> (case map_of props k of Some x \<Rightarrow> x | None \<Rightarrow> JUndefined)
      | JBoxed b props \<Rightarrow> (case map_of props k of Some x \<Rightarrow> x | None \<Rightarrow> JUndefined)
      | _ \<Rightarrow> JUndefined)"

text \<open>The key \<open>`${type}!${id}`\<close> that \<open>update\<close> builds from two strings.\<close>

definition compositeKey :: "string \<Rightarrow> string \<Rightarrow> string" where
  "compositeKey ty ident = ty @ ''!'' @ ident"

subsection \<open>Requests of the client\<close>

text \<open>\<open>path.replace(/^\/*/, "").replace(/\/*$/, "")\<close>, for a path that is a string.\<close>

definition stripSlashes :: "string \<Rightarrow> string" where
  "stripSlashes path =
     rev (dropWhile (\<lambda>c. c = CHR ''/'') (rev (dropWhile (\<lambda>c. c = CHR ''/'') path)))"

definition makeUrl :: "string \<Rightarrow> string \<Rightarrow> string" where
  "makeUrl url path = url @ ''/'' @ stripSlashes path @ ''.json''"

text \<open>
  \<open>JSON.stringify\<close>, kept as the JSON document rather than its text. At every depth
  a property whose value is \<open>undefined\<close> is left out and an array element that is
  \<open>undefined\<close> is printed as \<open>null\<close>; of a wrapper object the primitive is printed, of
  an array its elements.
\<close>

fun stringify :: "jsvalue \<Rightarrow> jsvalue"
  and stringifyProps :: "(string \<times> jsvalue) list \<Rightarrow> (string \<times> jsvalue) list"
  and stringifyElems :: "jsvalue list \<Rightarrow> jsvalue list" where
  "stringify (JObj props) = JObj (stringifyProps props)"
| "stringify (JArr xs) = JArr (stringifyElems xs)"
| "stringify (JBoxed v props) = stringify v"
| "stringify JUndefined = JUndefined"
| "stringify JNull = JNull"
| "stringify (JBool b) = JBool b"
| "stringify (JNum n) = JNum n"
| "stringify (JStr s) = JStr s"
| "stringifyProps [] = []"
| "stringifyProps ((k, v) # props) =
     (if v = JUndefined then stringifyProps props else (k, stringify v) # stringifyProps props)"
| "stringifyElems [] = []"
| "stringifyElems (v # xs) = (if v = JUndefined then JNull else stringify v) # stringifyElems xs"

text \<open>\<open>JSON.stringify\<close> of an object literal with the given properties.\<close>

definition jsonStringify :: "(string \<times> jsvalue) list \<Rightarrow> jsvalue" where
  "jsonStringify props = JObj (stringifyProps props)"

text \<open>
  The transport and the store behind it are outside the repository. A request may
  change the store, so the transport takes the state of the store and returns the new
  one: \<open>xhr method url body st\<close> is the status and the parsed response text of the
  request, and the store after it. \<open>_request\<close> rejects any status but 200.
\<close>

type_synonym 'st xhr = "string \<Rightarrow> string \<Rightarrow> jsvalue \<Rightarrow> 'st \<Rightarrow> (nat \<times> jsvalue) \<times> 'st"

definition request ::
  "'st xhr \<Rightarrow> string \<Rightarrow> string \<Rightarrow> jsvalue \<Rightarrow> 'st \<Rightarrow> (error + jsvalue) \<times> 'st" where
  "request xhr method url body st =
     (case xhr method url body st of
        ((status, response), st') \<Rightarrow>
          (if status \<noteq> 200 then Inl REQUEST_ERROR else Inr response, st'))"

text \<open>\<open>FirebaseClient._update\<close>, \<open>put\<close>, \<open>delete\<close> and \<open>get\<close>; \<open>url\<close> is \<open>this.url\<close>.\<close>

definition client_update ::
  "'st xhr \<Rightarrow> string \<Rightarrow> string \<Rightarrow> string \<Rightarrow> jsvalue \<Rightarrow> 'st \<Rightarrow> (error + jsvalue) \<times> 'st" where
  "client_update xhr url method path val st =
     (if method = ''DELETE'' \<and> val \<noteq> JNull then (Inl NoValueExpected, st)
      else request xhr method (makeUrl url path)
             (jsonStringify
                [(''timestamp'', JObj [(''.sv'', JStr ''timestamp'')]), (''value'', val)]) st)"

definition put ::
  "'st xhr \<Rightarrow> string \<Rightarrow> string \<Rightarrow> jsvalue \<Rightarrow> 'st \<Rightarrow> (error + jsvalue) \<times> 'st" where
  "put xhr url path body st = client_update xhr url ''PUT'' path body st"

definition client_delete ::
  "'st xhr \<Rightarrow> string \<Rightarrow> string \<Rightarrow> 'st \<Rightarrow> (error + jsvalue) \<times> 'st" where
  "client_delete xhr url path st = client_update xhr url ''DELETE'' path JNull st"

definition get ::
  "'st xhr \<Rightarrow> string \<Rightarrow> string \<Rightarrow> string \<Rightarrow> 'st \<Rightarrow> (error + jsvalue) \<times> 'st" where
  "get xhr url path query st =
     request xhr ''GET'' (makeUrl url path @ ''?'' @ query) JUndefined st"

subsection \<open>\<open>LoopFirebaseServer.update\<close> and \<open>delete\<close>\<close>

text \<open>
  \<open>update(type, id, value)\<close>: the promise of \<open>put\<close>, then \<open>_formatRecord\<close> on its
  result. \<open>delete(type, id)\<close> calls \<open>update\<close> with two arguments, so \<open>value\<close> is
  \<open>undefined\<close>.
\<close>

definition update ::
  "'st xhr \<Rightarrow> string \<Rightarrow> string \<Rightarrow> string \<Rightarrow> jsvalue \<Rightarrow> 'st \<Rightarrow> (error + jsvalue) \<times> 'st" where
  "update xhr url ty ident val st =
     (let key = compositeKey ty ident
      in case put xhr url key val st of
           (Inl e, st') \<Rightarrow> (Inl e, st')
         | (Inr result, st') \<Rightarrow> (formatRecord key result, st'))"

definition delete ::
  "'st xhr \<Rightarrow> string \<Rightarrow> string \<Rightarrow> string \<Rightarrow> 'st \<Rightarrow> (error + jsvalue) \<times> 'st" where
  "delete xhr url ty ident st = update xhr url ty ident JUndefined st"

text \<open>
  What the claims about \<open>delete\<close> need of the store, which keeps one node for each
  URL: a \<open>PUT\<close> answers 200 and replaces the node at the URL by the node \<open>stored body\<close>
  that the store makes of the body, and the store adds no member of its own (it may
  resolve the timestamp placeholder or leave members out): a member that the body does
  not have, the node does not have.
\<close>

definition putReplaces :: "(string \<rightharpoonup> jsvalue) xhr \<Rightarrow> (jsvalue \<Rightarrow> jsvalue) \<Rightarrow> bool" where
  "putReplaces xhr stored =
     ((\<forall>url body st. xhr ''PUT'' url body st = ((200, stored body), st(url \<mapsto> stored body))) \<and>
      (\<forall>body k. getProp body k = JUndefined \<longrightarrow> getProp (stored body) k = JUndefined))"

text \<open>
  An example of such a store: it resolves the placeholder \<open>{".sv": "timestamp"}\<close> of
  the member \<open>timestamp\<close> to the time 7 and keeps every other member as sent.
\<close>

definition resolve7 :: "string \<Rightarrow> jsvalue \<Rightarrow> jsvalue" where
  "resolve7 k v =
     (if k = ''timestamp'' \<and> v = JObj [(''.sv'', JStr ''timestamp'')] then JNum 7 else v)"

definition resolved7 :: "jsvalue \<Rightarrow> jsvalue" where
  "resolved7 body =
     (case body of
        JObj props \<Rightarrow> JObj (map (\<lambda>(k, v). (k, resolve7 k v)) props)
      | v \<Rightarrow> v)"

definition exampleStore :: "(string \<rightharpoonup> jsvalue) xhr" where
  "exampleStore method url body st =
     (if method = ''PUT'' then ((200, resolved7 body), st(url \<mapsto> resolved7 body))
      else ((200, case st url of Some node \<Rightarrow> node | None \<Rightarrow> JNull), st))"

subsection \<open>\<open>requestRoomData\<close>\<close>

text \<open>\<open>Object.keys(records).map(key => this._formatRecord(key, records[key]))\<close>.\<close>

fun formatAll :: "(string \<times> jsvalue) list \<Rightarrow> error + jsvalue list" where
  "formatAll [] = Inr []"
| "formatAll ((key, record) # rest) =
     (case formatRecord key record of
        Inl e \<Rightarrow> Inl e
      | Inr r \<Rightarrow> (case formatAll rest of Inl e \<Rightarrow> Inl e | Inr rs \<Rightarrow> Inr (r # rs)))"

text \<open>
  \<open>_recordsFormatter\<close>: \<open>records == null\<close> holds for \<open>null\<close> and \<open>undefined\<close>. The keys
  of a string or an array are its indices, which \<open>_formatRecord\<close> rejects; numbers and
  booleans have no keys.
\<close>

definition recordsFormatter :: "jsvalue \<Rightarrow> error + jsvalue list" where
  "recordsFormatter records =
     (case records of
        JUndefined \<Rightarrow> Inr []
      | JNull \<Rightarrow> Inr []
      | JObj props \<Rightarrow> formatAll props
      | JBoxed v props \<Rightarrow> formatAll props
      | JStr s \<Rightarrow> if s = [] then Inr [] else Inl TypeError
      | JArr xs \<Rightarrow> if xs = [] then Inr [] else Inl TypeError
      | _ \<Rightarrow> Inr [])"

text \<open>
  The comparison function \<open>(a, b) => b.type === "participant"\<close>. It returns a
  boolean; \<open>Array.prototype.sort\<close> reads \<open>true\<close> as 1 and \<open>false\<close> as 0.
\<close>

definition participantLast :: "jsvalue \<Rightarrow> jsvalue \<Rightarrow> bool" where
  "participantLast a b = (getProp b ''type'' = JStr ''participant'')"

definition toNumber :: "bool \<Rightarrow> int" where
  "toNumber b = (if b then 1 else 0)"

text \<open>
  \<open>Array.prototype.sort\<close> belongs to the JavaScript engine, so \<open>requestRoomData\<close>
  takes it as a parameter: \<open>arraySort comparefn records\<close>.
\<close>

definition roomDataQuery :: string where
  "roomDataQuery =
     buildQuery [(''orderBy'', quoted ''$key''), (''startAt'', quoted ''chat~''),
                 (''limitToLast'', numberToString MAX_LIMIT)]"

definition requestRoomData ::
  "((jsvalue \<Rightarrow> jsvalue \<Rightarrow> int) \<Rightarrow> jsvalue list \<Rightarrow> jsvalue list) \<Rightarrow> 'st xhr \<Rightarrow> string \<Rightarrow> 'st \<Rightarrow>
     (error + jsvalue list) \<times> 'st" where
  "requestRoomData arraySort xhr url st =
     (case get xhr url '''' roomDataQuery st of
        (Inl e, st') \<Rightarrow> (Inl e, st')
      | (Inr response, st') \<Rightarrow>
          (case recordsFormatter response of
             Inl e \<Rightarrow> (Inl e, st')
           | Inr records \<Rightarrow>
               (Inr (arraySort (\<lambda>a b. toNumber (participantLast a b)) records), st')))"

text \<open>
  Two sorts an engine may run, both insertion sorts as engines use them on short
  arrays: each element in turn moves left past the elements \<open>tmp\<close> before it while
  \<open>passes tmp element\<close> holds. The first moves while \<open>comparefn(tmp, element) > 0\<close>,
  the second while \<open>comparefn(element, tmp) < 0\<close>. On a consistent comparison function
  the two agree and sort stably.
\<close>

definition insertLeft :: "('a \<Rightarrow> 'a \<Rightarrow> bool) \<Rightarrow> 'a list \<Rightarrow> 'a \<Rightarrow> 'a list" where
  "insertLeft passes front element =
     rev (dropWhile (\<lambda>tmp. passes tmp element) (rev front)) @ [element] @
     rev (takeWhile (\<lambda>tmp. passes tmp element) (rev front))"

definition insertionSort :: "('a \<Rightarrow> 'a \<Rightarrow> bool) \<Rightarrow> 'a list \<Rightarrow> 'a list" where
  "insertionSort passes xs = foldl (insertLeft passes) [] xs"

definition sortByGreater :: "('a \<Rightarrow> 'a \<Rightarrow> int) \<Rightarrow> 'a list \<Rightarrow> 'a list" where
  "sortByGreater comparefn = insertionSort (\<lambda>tmp element. 0 < comparefn tmp element)"

definition sortByLess :: "('a \<Rightarrow> 'a \<Rightarrow> int) \<Rightarrow> 'a list \<Rightarrow> 'a list" where
  "sortByLess comparefn = insertionSort (\<lambda>tmp element. comparefn element tmp < 0)"

text \<open>
  Example responses of the range query, from transports that leave the store as it is:
  two participants; a chat record followed by a participant; and the record
  \<open>meta!lastConnect\<close>, which the constructor writes, followed by a participant.
\<close>

definition twoParticipants :: "'st xhr" where
  "twoParticipants method url body st =
     ((200, JObj [(''participant!1'', JObj [(''name'', JStr ''A'')]),
                  (''participant!2'', JObj [(''name'', JStr ''B'')])]), st)"

definition chatThenParticipant :: "'st xhr" where
  "chatThenParticipant method url body st =
     ((200, JObj [(''chat!9'', JObj [(''text'', JStr ''hi'')]),
                  (''participant!1'', JObj [(''name'', JStr ''A'')])]), st)"

definition metaThenParticipant :: "'st xhr" where
  "metaThenParticipant method url body st =
     ((200, JObj [(''meta!lastConnect'', JObj [(''timestamp'', JNum 5)]),
                  (''participant!1'', JObj [(''name'', JStr ''A'')])]), st)"

section \<open>Properties of the identifier generator\<close>

declare carryLoop.simps [simp del]

lemma length_CHARS: "length CHARS = 64"
  by (simp add: CHARS_def)

lemma CHARS_sorted: "sorted_wrt (<) CHARS"
  by (simp add: CHARS_def less_char_def)

lemma CHARS_mono: "i < j \<Longrightarrow> j < 64 \<Longrightarrow> CHARS ! i < CHARS ! j"
  using CHARS_sorted by (simp add: sorted_wrt_iff_nth_less length_CHARS)

lemma charAt_digit: "0 \<le> t \<Longrightarrow> charAt CHARS (jsRem t 64) = [CHARS ! nat (t mod 64)]"
  by (simp add: charAt_def jsRem_def length_CHARS)

lemma timeStampLoop_rest: "snd (timeStampLoop n (cs, t)) = t div 64 ^ n"
proof (induction n arbitrary: cs t)
  case 0
  show ?case by simp
next
  case (Suc n)
  have "t div 64 div 64 ^ n = t div (64 * 64 ^ n)"
    by (simp add: zdiv_zmult2_eq)
  with Suc show ?case by simp
qed

lemma timeStampLoop_chars:
  "0 \<le> t \<Longrightarrow> concat (fst (timeStampLoop n (cs, t))) = encode n t @ concat cs"
proof (induction n arbitrary: cs t)
  case 0
  show ?case by simp
next
  case (Suc n)
  have "0 \<le> t div 64" using Suc.prems by simp
  from Suc.IH [OF this] show ?case
    using Suc.prems by (simp add: charAt_digit)
qed

lemma length_encode: "length (encode n t) = n"
  by (induction n arbitrary: t) auto

lemma set_encode: "set (encode n t) \<subseteq> set CHARS"
proof (induction n arbitrary: t)
  case 0
  show ?case by simp
next
  case (Suc n)
  have "nat (t mod 64) < length CHARS"
    by (simp add: length_CHARS nat_less_iff)
  then have "CHARS ! nat (t mod 64) \<in> set CHARS"
    by (rule nth_mem)
  with Suc show ?case by simp
qed

lemma less_append_same_length:
  fixes p q :: "'a::order list"
  shows "length p = length q \<Longrightarrow> p < q \<Longrightarrow> p @ u < q @ v"
  by (induction p q rule: list_induct2) auto

lemma less_append_left:
  fixes u v :: "'a::order list"
  shows "u < v \<Longrightarrow> p @ u < p @ v"
  by (induction p) auto

lemma encode_mono:
  "0 \<le> t1 \<Longrightarrow> t1 < t2 \<Longrightarrow> t2 < 64 ^ n \<Longrightarrow> encode n t1 < encode n t2"
proof (induction n arbitrary: t1 t2)
  case 0
  then show ?case by simp
next
  case (Suc n)
  have le: "t1 div 64 \<le> t2 div 64"
    using Suc.prems(2) by (simp add: zdiv_mono1)
  show ?case
  proof (cases "t1 div 64 < t2 div 64")
    case True
    have "t2 div 64 < 64 ^ n"
      using Suc.prems(3) by (simp add: div_less_iff_less_mult mult.commute)
    moreover have "0 \<le> t1 div 64"
      using Suc.prems(1) by simp
    ultimately have "encode n (t1 div 64) < encode n (t2 div 64)"
      using True Suc.IH by blast
    then show ?thesis
      by (simp add: less_append_same_length length_encode)
  next
    case False
    with le have eq: "t1 div 64 = t2 div 64" by simp
    have "t1 mod 64 < t2 mod 64"
      using Suc.prems(2) eq by (metis add_less_cancel_left mult_div_mod_eq)
    moreover have "0 \<le> t1 mod 64" "t2 mod 64 < 64" by simp_all
    ultimately have "nat (t1 mod 64) < nat (t2 mod 64)" "nat (t2 mod 64) < 64"
      by (simp_all add: nat_less_iff)
    then have "CHARS ! nat (t1 mod 64) < CHARS ! nat (t2 mod 64)"
      by (rule CHARS_mono)
    then show ?thesis
      by (simp add: eq less_append_left)
  qed
qed

lemma appendSuffix_eq: "appendSuffix a s = s @ suffixString a"
proof -
  have "fold (\<lambda>i s. s @ f i) xs s = s @ concat (map f xs)" for f :: "nat \<Rightarrow> string" and xs s
    by (induction xs arbitrary: s) simp_all
  then show ?thesis
    by (simp add: appendSuffix_def suffixString_def)
qed

lemma timeStampLoop_8:
  assumes "0 \<le> t"
  shows "timeStampLoop 8 ([], t) = (cs, rest) \<Longrightarrow> concat cs = encode 8 t \<and> rest = t div 64 ^ 8"
  using timeStampLoop_chars [OF assms, of 8 "[]"] timeStampLoop_rest [of 8 "[]" t]
  by simp

lemma div_pow_zero_iff: "0 \<le> t \<Longrightarrow> (t div 64 ^ 8 = 0) = (t < (64::int) ^ 8)"
  by (auto simp add: zdiv_eq_0_iff)

text \<open>What \<open>makeId\<close> computes at a time that fits eight digits.\<close>

lemma makeId_in_range:
  assumes "0 \<le> t" "t < 64 ^ 8"
  shows "makeId self random t =
     (let g = (case self of None \<Rightarrow> initGen | Some g \<Rightarrow> g);
          a = (if t = lastTime g then incrementSuffix (lastRandChars g)
               else randomSuffix random (lastRandChars g));
          g' = \<lparr>lastRandChars = a, lastTime = t\<rparr>;
          ident = encode 8 t @ suffixString a
      in if length ident \<noteq> 20 then (Inl LengthNot20, g') else (Inr ident, g'))"
proof -
  obtain cs rest where loop: "timeStampLoop 8 ([], t) = (cs, rest)"
    by (cases "timeStampLoop 8 ([], t)")
  from timeStampLoop_8 [OF assms(1) loop] have cs: "concat cs = encode 8 t" and "rest = t div 64 ^ 8"
    by simp_all
  with assms have rest: "rest = 0"
    by (simp add: div_pow_zero_iff)
  show ?thesis
    unfolding makeId_def Let_def loop
    by (cases self) (simp_all add: rest cs appendSuffix_eq)
qed

text \<open>
  At any other time (negative, or \<open>64 ^ 8\<close> and more) \<open>makeId\<close> throws after it has
  written \<open>lastTime\<close>; the slots are as they were.
\<close>

lemma makeId_throws:
  assumes "t div 64 ^ 8 \<noteq> 0"
  shows "makeId self random t =
     (Inl TimestampNotConverted, (case self of None \<Rightarrow> initGen | Some g \<Rightarrow> g)\<lparr>lastTime := t\<rparr>)"
proof -
  obtain cs rest where loop: "timeStampLoop 8 ([], t) = (cs, rest)"
    by (cases "timeStampLoop 8 ([], t)")
  from timeStampLoop_rest [of 8 "[]" t] have "rest = t div 64 ^ 8"
    by (simp add: loop)
  with assms have rest: "rest \<noteq> 0"
    by simp
  show ?thesis
    unfolding makeId_def Let_def loop
    by (simp add: rest)
qed

lemma makeId_out_of_range:
  assumes "0 \<le> t" "64 ^ 8 \<le> t"
  shows "fst (makeId self random t) = Inl TimestampNotConverted"
proof -
  from assms have "t div 64 ^ 8 \<noteq> 0"
    by (simp add: div_pow_zero_iff)
  then show ?thesis
    by (simp add: makeId_throws)
qed

lemma makeId_returns_shape:
  assumes "0 \<le> t" "t < 64 ^ 8" "fst (makeId self random t) = Inr ident"
  shows "\<exists>suffix. ident = encode 8 t @ suffix"
  using assms(3) unfolding makeId_in_range [OF assms(1,2)] Let_def
  by (auto split: if_splits)


subsection \<open>The suffix slots stay within \<open>0 .. 63\<close>\<close>

lemma carryLoop_props:
  "carryLoop i a = (j, a') \<Longrightarrow>
     j \<le> i \<and> (- 1 \<le> i \<longrightarrow> - 1 \<le> j) \<and> (0 \<le> j \<longrightarrow> a' j \<noteq> Some (Num 63)) \<and>
     (\<forall>k. slotOk (a k) \<longrightarrow> slotOk (a' k))"
proof (induction i a arbitrary: j a' rule: carryLoop.induct)
  case (1 i a)
  show ?case
  proof (cases "0 \<le> i \<and> a i = Some (Num 63)")
    case True
    then have "carryLoop (i - 1) (a(i \<mapsto> Num 0)) = (j, a')"
      using "1.prems" by (simp add: carryLoop.simps [of i a])
    from "1.IH" [OF True this] True show ?thesis
      by (auto simp: slotOk_def)
  next
    case False
    then have "j = i" "a' = a"
      using "1.prems" by (auto simp: carryLoop.simps [of i a])
    with False show ?thesis by auto
  qed
qed

lemma slotOk_postIncr: "slotOk v \<Longrightarrow> v \<noteq> Some (Num 63) \<Longrightarrow> slotOk (Some (postIncr v))"
  by (auto simp: slotOk_def postIncr_def split: option.splits jsnum.splits)

lemma incrementSuffix_slotOk:
  assumes a: "\<And>k. 0 \<le> k \<Longrightarrow> k < 12 \<Longrightarrow> slotOk (a k)" and k: "0 \<le> k" "k < 12"
  shows "slotOk (incrementSuffix a k)"
proof -
  obtain j a' where loop: "carryLoop 11 a = (j, a')"
    by (cases "carryLoop 11 a")
  note p = carryLoop_props [OF loop]
  show ?thesis
  proof (cases "k = j")
    case True
    with p a k have "slotOk (a' j)" "a' j \<noteq> Some (Num 63)" by auto
    then show ?thesis
      using True by (simp add: incrementSuffix_def loop slotOk_postIncr)
  next
    case False
    with p a k show ?thesis
      by (simp add: incrementSuffix_def loop)
  qed
qed

lemma fold_upd_upt:
  "fold (\<lambda>i a. a(int i \<mapsto> f i)) [0..<n] a k =
     (if 0 \<le> k \<and> k < int n then Some (f (nat k)) else a k)"
proof (induction n)
  case 0
  show ?case by auto
next
  case (Suc n)
  show ?case
  proof (cases "k = int n")
    case True
    then show ?thesis by simp
  next
    case False
    then show ?thesis using Suc by auto
  qed
qed

lemma randomSuffix_apply:
  "randomSuffix random a k =
     (if 0 \<le> k \<and> k < 12 then Some (Num \<lfloor>random (nat k) * 64\<rfloor>) else a k)"
  unfolding randomSuffix_def using fold_upd_upt [of "\<lambda>i. Num \<lfloor>random i * 64\<rfloor>" 12 a k]
  by simp

lemma randomOk_iff: "randomOk random = (\<forall>i<12. 0 \<le> random i \<and> random i < 1)"
  by (auto simp: randomOk_def list_all_iff)

lemma genOk_Some_iff: "genOk (Some g) = (\<forall>k. 0 \<le> k \<and> k < 12 \<longrightarrow> slotOk (lastRandChars g k))"
proof -
  have "(\<forall>i<12. slotOk (lastRandChars g (int i))) = (\<forall>k. 0 \<le> k \<and> k < 12 \<longrightarrow> slotOk (lastRandChars g k))"
  proof (intro iffI allI impI)
    fix k :: int
    assume a: "\<forall>i<12. slotOk (lastRandChars g (int i))" and k: "0 \<le> k \<and> k < 12"
    from k have "nat k < 12" by arith
    with a have "slotOk (lastRandChars g (int (nat k)))" by blast
    with k show "slotOk (lastRandChars g k)" by simp
  next
    fix i :: nat
    assume "\<forall>k. 0 \<le> k \<and> k < 12 \<longrightarrow> slotOk (lastRandChars g k)" "i < 12"
    then show "slotOk (lastRandChars g (int i))" by simp
  qed
  moreover have "(\<forall>i\<in>{0..<12::nat}. P i) = (\<forall>i<12. P i)" for P
    by auto
  ultimately show ?thesis
    by (simp add: genOk_def list_all_iff)
qed

lemma randomSuffix_slotOk:
  assumes "randomOk random" "0 \<le> k" "k < 12"
  shows "slotOk (randomSuffix random a k)"
proof -
  from assms have r: "0 \<le> random (nat k)" "random (nat k) < 1"
    by (simp_all add: randomOk_iff)
  then have "0 \<le> \<lfloor>random (nat k) * 64\<rfloor>" "\<lfloor>random (nat k) * 64\<rfloor> < 64"
    by (simp_all add: floor_less_iff)
  with assms show ?thesis
    by (simp add: randomSuffix_apply slotOk_def)
qed


lemma makeId_state:
  assumes "0 \<le> t" "t < 64 ^ 8"
  shows "snd (makeId self random t) =
     \<lparr>lastRandChars =
        (if t = lastTime (case self of None \<Rightarrow> initGen | Some g \<Rightarrow> g)
         then incrementSuffix (lastRandChars (case self of None \<Rightarrow> initGen | Some g \<Rightarrow> g))
         else randomSuffix random (lastRandChars (case self of None \<Rightarrow> initGen | Some g \<Rightarrow> g))),
      lastTime = t\<rparr>"
  unfolding makeId_in_range [OF assms] Let_def by simp

lemma genOk_initGen: "genOk (Some initGen)"
  by (simp add: genOk_Some_iff initGen_def slotOk_def)

text \<open>
  Every call of \<open>makeId\<close>, whether it returns or throws, keeps the slots within
  \<open>0 .. 63\<close>: \<open>genOk\<close> holds of every state the generator reaches.
\<close>

lemma makeId_genOk:
  assumes ok: "genOk self" "randomOk random"
  shows "genOk (Some (snd (makeId self random t)))"
proof -
  define g where "g = (case self of None \<Rightarrow> initGen | Some g \<Rightarrow> g)"
  have g: "0 \<le> k \<Longrightarrow> k < 12 \<Longrightarrow> slotOk (lastRandChars g k)" for k
    using ok(1) genOk_initGen by (cases self) (simp_all add: g_def genOk_Some_iff)
  show ?thesis
  proof (cases "0 \<le> t \<and> t < 64 ^ 8")
    case True
    then have t: "0 \<le> t" "t < 64 ^ 8" by simp_all
    show ?thesis
      unfolding makeId_state [OF t] genOk_Some_iff
      using randomSuffix_slotOk [OF ok(2)] incrementSuffix_slotOk [of "lastRandChars g"] g
      by (simp add: g_def)
  next
    case False
    have "t div 64 ^ 8 \<noteq> 0"
    proof (cases "0 \<le> t")
      case True
      with False show ?thesis by (simp add: div_pow_zero_iff)
    next
      case False
      then have "t div 64 ^ 8 < 0" by (simp add: neg_imp_zdiv_neg_iff)
      then show ?thesis by simp
    qed
    then show ?thesis
      using g by (simp add: makeId_throws genOk_Some_iff g_def)
  qed
qed

subsection \<open>The twelve suffix characters\<close>

lemma length_concat_upt:
  "(\<And>i. i < n \<Longrightarrow> length (f i) = 1) \<Longrightarrow> length (concat (map f [0..<n])) = n"
  by (induction n) simp_all

lemma set_concat_upt:
  "(\<And>i. i < n \<Longrightarrow> set (f i) \<subseteq> A) \<Longrightarrow> set (concat (map f [0..<n])) \<subseteq> A"
  by (induction n) auto

lemma charAt_slot:
  assumes "slotOk v"
  shows "length (charAt CHARS (toIndex v)) = 1" and "set (charAt CHARS (toIndex v)) \<subseteq> set CHARS"
proof -
  have "0 \<le> toIndex v \<and> toIndex v < 64"
    using assms by (auto simp: slotOk_def toIndex_def split: option.splits jsnum.splits)
  then have c: "charAt CHARS (toIndex v) = [CHARS ! nat (toIndex v)]" and "nat (toIndex v) < length CHARS"
    by (simp_all add: charAt_def length_CHARS nat_less_iff)
  then show "length (charAt CHARS (toIndex v)) = 1" and "set (charAt CHARS (toIndex v)) \<subseteq> set CHARS"
    by simp_all
qed

lemma suffixString_ok:
  assumes "genOk (Some g)"
  shows "length (suffixString (lastRandChars g)) = 12"
    and "set (suffixString (lastRandChars g)) \<subseteq> set CHARS"
proof -
  have s: "slotOk (lastRandChars g (int i))" if "i < 12" for i
    using assms that by (simp add: genOk_Some_iff)
  show "length (suffixString (lastRandChars g)) = 12"
    unfolding suffixString_def by (rule length_concat_upt) (simp add: s charAt_slot(1))
  show "set (suffixString (lastRandChars g)) \<subseteq> set CHARS"
    unfolding suffixString_def by (rule set_concat_upt) (simp add: s charAt_slot(2))
qed


text \<open>At a time that fits eight digits a reachable generator returns an identifier.\<close>

lemma makeId_returns:
  assumes "genOk self" "randomOk random" "0 \<le> t" "t < 64 ^ 8"
  shows "\<exists>ident. fst (makeId self random t) = Inr ident \<and>
                 length ident = 20 \<and> set ident \<subseteq> set CHARS"
proof -
  let ?g = "snd (makeId self random t)"
  have ok: "genOk (Some ?g)"
    using assms(1,2) by (rule makeId_genOk)
  define a where "a = lastRandChars ?g"
  have len: "length (suffixString a) = 12" and sub: "set (suffixString a) \<subseteq> set CHARS"
    using suffixString_ok [OF ok] by (simp_all add: a_def)
  have a: "a = (if t = lastTime (case self of None \<Rightarrow> initGen | Some g \<Rightarrow> g)
         then incrementSuffix (lastRandChars (case self of None \<Rightarrow> initGen | Some g \<Rightarrow> g))
         else randomSuffix random (lastRandChars (case self of None \<Rightarrow> initGen | Some g \<Rightarrow> g)))"
    unfolding a_def makeId_state [OF assms(3,4)] by simp
  have "fst (makeId self random t) = Inr (encode 8 t @ suffixString a)"
    unfolding makeId_in_range [OF assms(3,4)] Let_def a [symmetric]
    by (simp add: len length_encode)
  moreover have "length (encode 8 t @ suffixString a) = 20"
    by (simp add: len length_encode)
  moreover have "set (encode 8 t @ suffixString a) \<subseteq> set CHARS"
    using sub set_encode [of 8 t] by simp
  ultimately show ?thesis
    by blast
qed

subsection \<open>The claims about \<open>makeId\<close>\<close>

text \<open>
  C1. For two times \<open>0 \<le> t1 < t2 < 64 ^ 8\<close>, whatever the generator states and
  whatever \<open>Math.random()\<close> returns in either call, an identifier that \<open>makeId\<close>
  returns at \<open>t1\<close> is lexicographically strictly smaller than one it returns at \<open>t2\<close>.
\<close>

theorem makeId_time_order:
  assumes "0 \<le> t1" "t1 < t2" "t2 < 64 ^ 8"
    and "fst (makeId self1 random1 t1) = Inr id1"
    and "fst (makeId self2 random2 t2) = Inr id2"
  shows "id1 < id2"
proof -
  from assms have t1: "t1 < 64 ^ 8" and t2: "0 \<le> t2" by simp_all
  obtain s1 where id1: "id1 = encode 8 t1 @ s1"
    using makeId_returns_shape [OF assms(1) t1 assms(4)] by blast
  obtain s2 where id2: "id2 = encode 8 t2 @ s2"
    using makeId_returns_shape [OF t2 assms(3) assms(5)] by blast
  have "encode 8 t1 < encode 8 t2"
    using assms(1-3) by (rule encode_mono)
  then show ?thesis
    unfolding id1 id2 by (rule less_append_same_length [rotated]) (simp add: length_encode)
qed

theorem makeId_time_order_witness:
  "fst (makeId None (\<lambda>i. 63 / 64) 1000) = Inr ''000000Fd~~~~~~~~~~~~'' \<and>
   fst (makeId (Some (snd (makeId None (\<lambda>i. 63 / 64) 1000))) (\<lambda>i. 0) 1001) = Inr ''000000Fe000000000000'' \<and>
   ''000000Fd~~~~~~~~~~~~'' < ''000000Fe000000000000''"
proof -
  have a: "fst (makeId None (\<lambda>i. 63 / 64) 1000) = Inr ''000000Fd~~~~~~~~~~~~''"
    by code_simp
  have b: "fst (makeId (Some (snd (makeId None (\<lambda>i. 63 / 64) 1000))) (\<lambda>i. 0) 1001) = Inr ''000000Fe000000000000''"
    by code_simp
  have "(0::int) \<le> 1000" "(1000::int) < 1001" "(1001::int) < 64 ^ 8"
    by simp_all
  from makeId_time_order [OF this a b] a b show ?thesis
    by simp
qed

text \<open>
  C5. On a generator state that calls of \<open>makeId\<close> have produced (\<open>genOk\<close>), with
  \<open>Math.random()\<close> in \<open>[0, 1)\<close>, and for a non-negative time: \<open>makeId\<close> throws if and
  only if the time is at least \<open>64 ^ 8\<close>, and below \<open>64 ^ 8\<close> it returns a string of
  exactly 20 characters, all of them from \<open>CHARS\<close>.
\<close>

theorem makeId_fails_iff_out_of_range:
  assumes "genOk self" "randomOk random" "0 \<le> time"
  shows "((\<exists>e. fst (makeId self random time) = Inl e) \<longleftrightarrow> 64 ^ 8 \<le> time) \<and>
         (time < 64 ^ 8 \<longrightarrow>
            (\<exists>ident. fst (makeId self random time) = Inr ident \<and> length ident = 20 \<and>
                     set ident \<subseteq> set CHARS))"
proof (cases "time < 64 ^ 8")
  case False
  then have "fst (makeId self random time) = Inl TimestampNotConverted"
    using assms(3) by (simp add: makeId_out_of_range)
  with False show ?thesis by simp
next
  case True
  from makeId_returns [OF assms True] True show ?thesis
    by auto
qed

theorem makeId_fails_iff_out_of_range_witness:
  "genOk None \<and> randomOk (\<lambda>i. 1 / 2) \<and>
   fst (makeId None (\<lambda>i. 1 / 2) (64 ^ 8)) = Inl TimestampNotConverted \<and>
   (\<exists>ident. fst (makeId None (\<lambda>i. 1 / 2) (64 ^ 8 - 1)) = Inr ident \<and> length ident = 20 \<and>
            set ident \<subseteq> set CHARS)"
proof -
  have a: "genOk None" by (simp add: genOk_def)
  have b: "randomOk (\<lambda>i. 1 / 2)" by (simp add: randomOk_iff)
  have c: "fst (makeId None (\<lambda>i. 1 / 2) (64 ^ 8)) = Inl TimestampNotConverted"
    by code_simp
  from makeId_fails_iff_out_of_range [OF a b, of "64 ^ 8 - 1"] a b c show ?thesis
    by simp
qed

section \<open>Properties of \<open>requestChat\<close> and of the suffix counter\<close>

declare showNat.simps [simp del]

text \<open>
  C10. On a reachable generator state and for bounds \<open>max 0 (startTime - 1)\<close> and
  \<open>endTime + 1\<close> that fit eight digits, \<open>requestChat\<close> returns its query and leaves the
  shared generator changed: \<open>lastTime\<close> is \<open>endTime + 1\<close>, the slots are those the second
  \<open>makeId\<close> call drew (or the incremented ones, when both bounds are the same
  millisecond), and a later \<open>makeId(endTime + 1)\<close> increments these slots whatever
  \<open>Math.random()\<close> would have returned.
\<close>

theorem requestChat_moves_generator:
  assumes "genOk self" "randomOk random1" "randomOk random2"
    and "startTime - 1 < 64 ^ 8" "0 \<le> endTime + 1" "endTime + 1 < 64 ^ 8"
  shows "\<exists>query g'.
           requestChat self random1 random2 startTime endTime limit = (Inr query, g') \<and>
           lastTime g' = endTime + 1 \<and>
           lastRandChars g' =
             (let a1 = lastRandChars (snd (makeId self random1 (max 0 (startTime - 1))))
              in if endTime + 1 = max 0 (startTime - 1) then incrementSuffix a1
                 else randomSuffix random2 a1) \<and>
           (\<forall>random3. snd (makeId (Some g') random3 (endTime + 1)) =
              \<lparr>lastRandChars = incrementSuffix (lastRandChars g'), lastTime = endTime + 1\<rparr>)"
proof -
  let ?t1 = "max 0 (startTime - 1)" and ?t2 = "endTime + 1"
  have t1: "0 \<le> ?t1" "?t1 < 64 ^ 8"
    using assms(4) by simp_all
  define g1 where "g1 = snd (makeId self random1 ?t1)"
  define g2 where "g2 = snd (makeId (Some g1) random2 ?t2)"
  obtain id1 where "fst (makeId self random1 ?t1) = Inr id1"
    using makeId_returns [OF assms(1,2) t1] by blast
  then have c1: "makeId self random1 ?t1 = (Inr id1, g1)"
    by (simp add: g1_def prod_eq_iff)
  have ok1: "genOk (Some g1)"
    unfolding g1_def using assms(1,2) by (rule makeId_genOk)
  obtain id2 where "fst (makeId (Some g1) random2 ?t2) = Inr id2"
    using makeId_returns [OF ok1 assms(3,5,6)] by blast
  then have c2: "makeId (Some g1) random2 ?t2 = (Inr id2, g2)"
    by (simp add: g2_def prod_eq_iff)
  have l1: "lastTime g1 = ?t1"
    unfolding g1_def makeId_state [OF t1] by simp
  have g2: "g2 = \<lparr>lastRandChars = (if ?t2 = ?t1 then incrementSuffix (lastRandChars g1)
                                     else randomSuffix random2 (lastRandChars g1)),
                   lastTime = ?t2\<rparr>"
    unfolding g2_def makeId_state [OF assms(5,6)] by (simp add: l1)
  have "\<exists>query. requestChat self random1 random2 startTime endTime limit = (Inr query, g2)"
    by (simp add: requestChat_def c1 c2)
  moreover have "lastTime g2 = ?t2"
    by (simp add: g2)
  moreover have "lastRandChars g2 =
      (let a1 = lastRandChars g1 in if ?t2 = ?t1 then incrementSuffix a1 else randomSuffix random2 a1)"
    by (simp add: g2)
  moreover have "snd (makeId (Some g2) random3 ?t2) =
      \<lparr>lastRandChars = incrementSuffix (lastRandChars g2), lastTime = ?t2\<rparr>" for random3
    unfolding makeId_state [OF assms(5,6)] by (simp add: g2)
  ultimately show ?thesis
    unfolding g1_def [symmetric] by blast
qed

theorem requestChat_moves_generator_witness:
  "genOk None \<and> randomOk (\<lambda>i. 1 / 2) \<and> randomOk (\<lambda>i. 0) \<and>
   fst (requestChat None (\<lambda>i. 1 / 2) (\<lambda>i. 0) 1000 2000 5) =
     Inr (''format=export&orderBy='' @ quoted ''$key'' @
          ''&startAt='' @ quoted ''chat!000000FcWWWWWWWWWWWW'' @
          ''&endAt='' @ quoted ''chat!000000VH000000000000'' @ ''&limitToLast=5'') \<and>
   (\<exists>query g'.
      requestChat None (\<lambda>i. 1 / 2) (\<lambda>i. 0) 1000 2000 5 = (Inr query, g') \<and>
      lastTime g' = 2001 \<and>
      lastRandChars g' = randomSuffix (\<lambda>i. 0) (lastRandChars (snd (makeId None (\<lambda>i. 1 / 2) 999))) \<and>
      (\<forall>random3. snd (makeId (Some g') random3 2001) =
         \<lparr>lastRandChars = incrementSuffix (lastRandChars g'), lastTime = 2001\<rparr>))"
proof -
  have a: "genOk None" by (simp add: genOk_def)
  have b: "randomOk (\<lambda>i. 1 / 2)" and c: "randomOk (\<lambda>i. 0)"
    by (simp_all add: randomOk_iff)
  have d: "fst (requestChat None (\<lambda>i. 1 / 2) (\<lambda>i. 0) 1000 2000 5) =
     Inr (''format=export&orderBy='' @ quoted ''$key'' @
          ''&startAt='' @ quoted ''chat!000000FcWWWWWWWWWWWW'' @
          ''&endAt='' @ quoted ''chat!000000VH000000000000'' @ ''&limitToLast=5'')"
    by code_simp
  from requestChat_moves_generator [OF a b c, of 1000 2000 5] a b c d show ?thesis
    by simp
qed

text \<open>
  C4. A generator whose first call at time 1000 drew 63 for every slot holds twelve
  slots equal to 63; the next call at time 1000 does not throw: it returns the time
  prefix followed by twelve \<open>0\<close> characters.
\<close>

theorem makeId_suffix_overflow_returns:
  "map (lastRandChars (snd (makeId None (\<lambda>i. 63 / 64) 1000))) [0, 1, 2, 3, 4, 5, 6, 7, 8, 9, 10, 11]
     = replicate 12 (Some (Num 63)) \<and>
   lastTime (snd (makeId None (\<lambda>i. 63 / 64) 1000)) = 1000 \<and>
   fst (makeId (Some (snd (makeId None (\<lambda>i. 63 / 64) 1000))) (\<lambda>i. 1 / 2) 1000)
     = Inr ''000000Fd000000000000''"
  by code_simp

text \<open>
  C2. On a new generator the first call at time 0 already takes the same-millisecond
  branch, on an empty slot array; it and the next call at time 0 return the same
  identifier, so the second is not strictly greater than the first.
\<close>

theorem makeId_fresh_time0_repeats:
  "fst (makeId None (\<lambda>i. 1 / 2) 0) = Inr ''00000000000000000000'' \<and>
   fst (makeId (Some (snd (makeId None (\<lambda>i. 1 / 2) 0))) (\<lambda>i. 1 / 2) 0) = Inr ''00000000000000000000'' \<and>
   map (lastRandChars (snd (makeId None (\<lambda>i. 1 / 2) 0))) [0, 1, 2, 3, 4, 5, 6, 7, 8, 9, 10, 11]
     = replicate 11 None @ [Some NaN]"
  by code_simp

text \<open>
  The same-millisecond call on twelve slots equal to 63 returns an identifier that is
  smaller than the one before it.
\<close>

lemma makeId_overflow_decreases:
  "fst (makeId None (\<lambda>i. 63 / 64) 1000) = Inr ''000000Fd~~~~~~~~~~~~'' \<and>
   fst (makeId (Some (snd (makeId None (\<lambda>i. 63 / 64) 1000))) (\<lambda>i. 1 / 2) 1000)
     = Inr ''000000Fd000000000000'' \<and>
   ''000000Fd000000000000'' < ''000000Fd~~~~~~~~~~~~''"
proof -
  have "''000000Fd000000000000'' < ''000000Fd~~~~~~~~~~~~''"
    by (simp add: less_char_def)
  moreover have "fst (makeId None (\<lambda>i. 63 / 64) 1000) = Inr ''000000Fd~~~~~~~~~~~~''"
    by code_simp
  moreover have "fst (makeId (Some (snd (makeId None (\<lambda>i. 63 / 64) 1000))) (\<lambda>i. 1 / 2) 1000)
     = Inr ''000000Fd000000000000''"
    by code_simp
  ultimately show ?thesis by simp
qed

subsection \<open>The same-millisecond branch as a counter\<close>

text \<open>
  What the carry loop does: the slots after the index it stops at held 63 and now hold
  0; every other slot is as it was.
\<close>

lemma carryLoop_resets:
  "carryLoop i a = (j, a') \<Longrightarrow>
     (\<forall>k. j < k \<and> k \<le> i \<longrightarrow> a k = Some (Num 63) \<and> a' k = Some (Num 0)) \<and>
     (\<forall>k. \<not> (j < k \<and> k \<le> i) \<longrightarrow> a' k = a k)"
proof (induction i a arbitrary: j a' rule: carryLoop.induct)
  case (1 i a)
  show ?case
  proof (cases "0 \<le> i \<and> a i = Some (Num 63)")
    case True
    then have rec: "carryLoop (i - 1) (a(i \<mapsto> Num 0)) = (j, a')"
      using "1.prems" by (simp add: carryLoop.simps [of i a])
    have j: "j \<le> i - 1"
      using carryLoop_props [OF rec] by simp
    note ih = "1.IH" [OF True rec]
    show ?thesis
    proof (intro conjI allI impI)
      fix k assume k: "j < k \<and> k \<le> i"
      show "a k = Some (Num 63)"
      proof (cases "k = i")
        case True
        with \<open>0 \<le> i \<and> a i = Some (Num 63)\<close> show ?thesis by simp
      next
        case False
        with k ih have "(a(i \<mapsto> Num 0)) k = Some (Num 63)" by simp
        with False show ?thesis by simp
      qed
      show "a' k = Some (Num 0)"
      proof (cases "k = i")
        case True
        with ih j have "a' i = (a(i \<mapsto> Num 0)) i" by simp
        with True show ?thesis by simp
      next
        case False
        with k ih show ?thesis by simp
      qed
    next
      fix k assume k: "\<not> (j < k \<and> k \<le> i)"
      with j have "k \<noteq> i" "\<not> (j < k \<and> k \<le> i - 1)" by auto
      with ih show "a' k = a k" by simp
    qed
  next
    case False
    then have "j = i" "a' = a"
      using "1.prems" by (auto simp: carryLoop.simps [of i a])
    then show ?thesis by auto
  qed
qed

lemma concat_singletons: "concat (map (\<lambda>i. [f i]) xs) = map f xs"
  by (induction xs) simp_all

lemma suffixString_map:
  assumes "\<And>k. 0 \<le> k \<Longrightarrow> k < 12 \<Longrightarrow> slotOk (a k)"
  shows "suffixString a = map (\<lambda>i. CHARS ! nat (toIndex (a (int i)))) [0..<12]"
proof -
  have "charAt CHARS (toIndex (a (int i))) = [CHARS ! nat (toIndex (a (int i)))]" if "i < 12" for i
  proof -
    have "slotOk (a (int i))" using assms that by simp
    then have "0 \<le> toIndex (a (int i)) \<and> toIndex (a (int i)) < 64"
      by (auto simp: slotOk_def toIndex_def split: option.splits jsnum.splits)
    then show ?thesis by (simp add: charAt_def length_CHARS)
  qed
  then have "map (\<lambda>i. charAt CHARS (toIndex (a (int i)))) [0..<12]
      = map (\<lambda>i. [CHARS ! nat (toIndex (a (int i)))]) [0..<12]"
    by (intro map_cong) simp_all
  then show ?thesis
    by (simp only: suffixString_def concat_singletons)
qed

lemma map_upt_less:
  fixes f g :: "nat \<Rightarrow> 'a::order"
  assumes "j < n" "\<And>i. i < j \<Longrightarrow> f i = g i" "f j < g j"
  shows "map f [0..<n] < map g [0..<n]"
proof -
  have split: "[0..<n] = [0..<j] @ j # [Suc j..<n]"
    using assms(1) by (metis less_imp_le_nat upt_add_eq_append upt_conv_Cons le_add_diff_inverse zero_le)
  have eq: "map f [0..<j] = map g [0..<j]"
    using assms(2) by (intro map_cong) simp_all
  have f: "map f [0..<n] = map g [0..<j] @ f j # map f [Suc j..<n]"
    by (subst split) (simp only: map_append list.map eq)
  have g: "map g [0..<n] = map g [0..<j] @ g j # map g [Suc j..<n]"
    by (subst split) (simp only: map_append list.map)
  have "f j # map f [Suc j..<n] < g j # map g [Suc j..<n]"
    using assms(3) by simp
  then show ?thesis
    unfolding f g by (rule less_append_left)
qed

text \<open>
  Outside the two cases above the same-millisecond branch is a counter. When a call at
  time \<open>t\<close> has returned and left twelve numeric slots in \<open>0 .. 63\<close> that are not all
  63, the next call at \<open>t\<close> returns a strictly greater identifier with the same time
  prefix; the last slot \<open>j\<close> that is not 63 has been incremented, the slots after it
  went from 63 to 0 and the slots before it are as they were.
\<close>

lemma makeId_same_time_increments:
  assumes t: "0 \<le> t" "t < 64 ^ 8"
    and first: "makeId self random1 t = (Inr id1, g1)"
    and numeric: "\<And>k. 0 \<le> k \<Longrightarrow> k < 12 \<Longrightarrow> \<exists>n. lastRandChars g1 k = Some (Num n) \<and> 0 \<le> n \<and> n \<le> 63"
    and notall: "\<exists>k. 0 \<le> k \<and> k < 12 \<and> lastRandChars g1 k \<noteq> Some (Num 63)"
  shows "\<exists>id2 g2 j n.
           makeId (Some g1) random2 t = (Inr id2, g2) \<and> id1 < id2 \<and> take 8 id2 = take 8 id1 \<and>
           0 \<le> j \<and> j < 12 \<and> lastRandChars g1 j = Some (Num n) \<and> n < 63 \<and>
           (\<forall>k. j < k \<and> k < 12 \<longrightarrow> lastRandChars g1 k = Some (Num 63)) \<and>
           (\<forall>k. 0 \<le> k \<and> k < 12 \<longrightarrow>
              lastRandChars g2 k =
                (if k < j then lastRandChars g1 k
                 else if k = j then Some (Num (n + 1)) else Some (Num 0)))"
proof -
  define a where "a = lastRandChars g1"
  have ok1: "slotOk (a k)" if "0 \<le> k" "k < 12" for k
    using numeric [OF that] by (auto simp: a_def slotOk_def)
  \<comment> \<open>the first call\<close>
  have g1: "lastTime g1 = t" and id1: "id1 = encode 8 t @ suffixString a"
    using first unfolding makeId_in_range [OF t] Let_def a_def
    by (auto split: if_splits)
  \<comment> \<open>the carry loop of the second call\<close>
  obtain j a' where loop: "carryLoop 11 a = (j, a')"
    by (cases "carryLoop 11 a")
  note p = carryLoop_props [OF loop] and r = carryLoop_resets [OF loop]
  have j11: "j \<le> 11" "- 1 \<le> j"
    using p by simp_all
  have j0: "0 \<le> j"
  proof (rule ccontr)
    assume "\<not> 0 \<le> j"
    with j11 have "j = - 1" by simp
    with r have "\<And>k. 0 \<le> k \<Longrightarrow> k < 12 \<Longrightarrow> a k = Some (Num 63)" by simp
    with notall show False by (auto simp: a_def)
  qed
  have a'j: "a' j = a j"
    using r by simp
  obtain n where n: "a j = Some (Num n)" "0 \<le> n" "n \<le> 63"
    using numeric [of j] j0 j11 by (auto simp: a_def)
  have "a' j \<noteq> Some (Num 63)"
    using p j0 by simp
  with n a'j have n63: "n < 63" by simp
  define a2 where "a2 = incrementSuffix a"
  have a2: "a2 k = (if k < j then a k else if k = j then Some (Num (n + 1)) else Some (Num 0))"
    if "0 \<le> k" "k < 12" for k
    using that r n a'j by (auto simp: a2_def incrementSuffix_def loop postIncr_def)
  have ok2: "slotOk (a2 k)" if "0 \<le> k" "k < 12" for k
    unfolding a2_def using ok1 that by (rule incrementSuffix_slotOk)
  \<comment> \<open>the second call\<close>
  have len2: "length (suffixString a2) = 12"
    by (simp add: suffixString_map [of a2, OF ok2])
  have second: "makeId (Some g1) random2 t =
      (Inr (encode 8 t @ suffixString a2), \<lparr>lastRandChars = a2, lastTime = t\<rparr>)"
    unfolding makeId_in_range [OF t] Let_def
    by (simp add: g1 a_def [symmetric] a2_def [symmetric] len2 length_encode)
  \<comment> \<open>the order of the two suffixes\<close>
  have "nat j < 12"
    using j0 j11 by simp
  moreover have "CHARS ! nat (toIndex (a (int i))) = CHARS ! nat (toIndex (a2 (int i)))"
    if "i < nat j" for i
    using that j11 a2 [of "int i"] by simp
  moreover have "CHARS ! nat (toIndex (a (int (nat j)))) < CHARS ! nat (toIndex (a2 (int (nat j))))"
  proof -
    have "nat n < nat (n + 1)" "nat (n + 1) < 64"
      using n n63 by simp_all
    then have "CHARS ! nat n < CHARS ! nat (n + 1)"
      by (rule CHARS_mono)
    then show ?thesis
      using j0 j11 n a2 [of j] by (simp add: toIndex_def)
  qed
  ultimately have "map (\<lambda>i. CHARS ! nat (toIndex (a (int i)))) [0..<12]
      < map (\<lambda>i. CHARS ! nat (toIndex (a2 (int i)))) [0..<12]"
    by (intro map_upt_less [of "nat j" 12 "\<lambda>i. CHARS ! nat (toIndex (a (int i)))"
          "\<lambda>i. CHARS ! nat (toIndex (a2 (int i)))"])
  then have "suffixString a < suffixString a2"
    by (simp only: suffixString_map [of a, OF ok1] suffixString_map [of a2, OF ok2])
  then have less: "id1 < encode 8 t @ suffixString a2"
    unfolding id1 by (rule less_append_left)
  have "take 8 (encode 8 t @ suffixString a2) = take 8 id1"
    by (simp add: id1 length_encode)
  moreover have "\<forall>k. j < k \<and> k < 12 \<longrightarrow> lastRandChars g1 k = Some (Num 63)"
    using r by (simp add: a_def)
  moreover have "\<forall>k. 0 \<le> k \<and> k < 12 \<longrightarrow>
      lastRandChars \<lparr>lastRandChars = a2, lastTime = t\<rparr> k =
        (if k < j then lastRandChars g1 k else if k = j then Some (Num (n + 1)) else Some (Num 0))"
    using a2 by (simp add: a_def)
  ultimately show ?thesis
    using second less j0 j11 n n63 unfolding a_def by (intro exI [of _ "encode 8 t @ suffixString a2"]
      exI [of _ "\<lparr>lastRandChars = a2, lastTime = t\<rparr>"] exI [of _ j] exI [of _ n]) simp
qed

text \<open>
  The overflow in general: whenever the twelve slots all hold 63, the same-millisecond
  call returns the time prefix followed by twelve \<open>0\<close> characters.
\<close>

lemma makeId_overflow_wraps:
  assumes t: "0 \<le> t" "t < 64 ^ 8" and g: "lastTime g = t"
    and all63: "\<And>k. 0 \<le> k \<Longrightarrow> k < 12 \<Longrightarrow> lastRandChars g k = Some (Num 63)"
  shows "fst (makeId (Some g) random t) = Inr (encode 8 t @ replicate 12 CHR ''0'')"
proof -
  define a where "a = lastRandChars g"
  obtain j a' where loop: "carryLoop 11 a = (j, a')"
    by (cases "carryLoop 11 a")
  note p = carryLoop_props [OF loop] and r = carryLoop_resets [OF loop]
  have j: "j = - 1"
  proof (rule ccontr)
    assume "j \<noteq> - 1"
    with p have j0: "0 \<le> j" "j \<le> 11" by simp_all
    with r have "a' j = a j" by simp
    with all63 [of j] j0 have "a' j = Some (Num 63)" by (simp add: a_def)
    with p j0 show False by simp
  qed
  define a2 where "a2 = incrementSuffix a"
  have a2: "a2 k = Some (Num 0)" if "0 \<le> k" "k < 12" for k
    using that r by (simp add: a2_def incrementSuffix_def loop j)
  have ok2: "slotOk (a2 k)" if "0 \<le> k" "k < 12" for k
    using a2 [OF that] by (simp add: slotOk_def)
  have "map (\<lambda>i. CHARS ! nat (toIndex (a2 (int i)))) [0..<12] = map (\<lambda>i. CHR ''0'') [0..<12]"
    by (intro map_cong) (simp_all add: a2 toIndex_def CHARS_def)
  moreover have "suffixString a2 = map (\<lambda>i. CHARS ! nat (toIndex (a2 (int i)))) [0..<12]"
    using ok2 by (rule suffixString_map)
  ultimately have suf: "suffixString a2 = replicate 12 CHR ''0''"
    by (simp add: map_replicate_const)
  show ?thesis
    unfolding makeId_in_range [OF t] Let_def
    by (simp add: g a_def [symmetric] a2_def [symmetric] suf length_encode)
qed

text \<open>A call at a new time leaves twelve numeric slots.\<close>

lemma makeId_new_time_numeric:
  assumes "0 \<le> t" "t < 64 ^ 8" "randomOk random" "t \<noteq> lastTime g" "0 \<le> k" "k < 12"
  shows "\<exists>n. lastRandChars (snd (makeId (Some g) random t)) k = Some (Num n) \<and> 0 \<le> n \<and> n \<le> 63"
proof -
  have "slotOk (randomSuffix random (lastRandChars g) k)"
    using assms(3,5,6) by (rule randomSuffix_slotOk)
  then show ?thesis
    unfolding makeId_state [OF assms(1,2)] using assms(4,5,6)
    by (simp add: randomSuffix_apply slotOk_def)
qed

section \<open>Properties of the notifications\<close>

lemma server_emit_eq: "server_emit = emit"
  by (intro ext) (simp add: server_emit_def emit_def)

text \<open>\<open>on\<close> adds the callback at the end of the array: the array is in registration order.\<close>

lemma on_appends:
  "\<not> inherited eventName \<Longrightarrow>
     \<exists>hs'. on hs eventName callback = Inr hs' \<and>
           hs' eventName = Some ((case hs eventName of Some l \<Rightarrow> l | None \<Rightarrow> []) @ [callback])"
  by (simp add: on_def split: option.splits)


text \<open>While the callbacks return and leave the array alone, the loop moves on.\<close>

lemma forOf_normalRun:
  assumes "normalRun call eventName argument l ss k"
  shows "forOf call eventName 0 argument (ss 0) = forOf call eventName k argument (ss k)"
proof -
  have "j \<le> k \<Longrightarrow> forOf call eventName 0 argument (ss 0) = forOf call eventName j argument (ss j)" for j
  proof (induction j)
    case 0
    show ?case by simp
  next
    case (Suc j)
    then have j: "j < k" by simp
    with assms have arr: "fst (ss j) eventName = Some l" and len: "j < length l"
      and c: "call (l ! j) argument (ss j) = (None, ss (Suc j))"
      by (simp_all add: normalRun_def)
    have "forOf call eventName j argument (ss j) = forOf call eventName (Suc j) argument (ss (Suc j))"
      by (subst forOf.simps) (simp add: arr len c)
    with Suc show ?case by simp
  qed
  then show ?thesis by simp
qed

lemma forOf_end:
  "fst s eventName = Some l \<Longrightarrow> length l \<le> i \<Longrightarrow> forOf call eventName i argument s = Some (None, s)"
  by (subst forOf.simps) simp

lemma forOf_throw:
  "fst s eventName = Some l \<Longrightarrow> i < length l \<Longrightarrow> call (l ! i) argument s = (Some x, s') \<Longrightarrow>
     forOf call eventName i argument s = Some (Some (Thrown x), s')"
  by (subst forOf.simps) simp

text \<open>The result of \<open>emit\<close> on a run, shared by the claims below.\<close>

lemma emit_normalRun:
  assumes "normalRun call eventName argument l ss k"
  shows "k = length l \<Longrightarrow> emit call eventName argument (ss 0) = Some (None, ss k)"
    and "k < length l \<Longrightarrow> call (l ! k) argument (ss k) = (Some x, s') \<Longrightarrow>
           emit call eventName argument (ss 0) = Some (Some (Thrown x), s')"
proof -
  from assms have a0: "fst (ss 0) eventName = Some l" and ak: "fst (ss k) eventName = Some l"
    by (simp_all add: normalRun_def)
  have e: "emit call eventName argument (ss 0) = forOf call eventName k argument (ss k)"
    using forOf_normalRun [OF assms] by (simp add: emit_def a0)
  show "k = length l \<Longrightarrow> emit call eventName argument (ss 0) = Some (None, ss k)"
    unfolding e using ak by (simp add: forOf_end)
  show "k < length l \<Longrightarrow> call (l ! k) argument (ss k) = (Some x, s') \<Longrightarrow>
           emit call eventName argument (ss 0) = Some (Some (Thrown x), s')"
    unfolding e using ak by (simp add: forOf_throw)
qed

text \<open>
  C3, as the code has it. For an event name with a registered array \<open>l\<close>, and while
  no callback registers or removes a handler of that name: \<open>emit\<close> calls the callbacks
  of \<open>l\<close> in the order of the array, which is the order of registration, each with the
  one argument and in the state the one before it left. When all of them return,
  \<open>emit\<close> returns after the last one. When the callback at index \<open>k\<close> throws, the
  exception leaves \<open>emit\<close> in the state that callback left: the callbacks after it are
  not called.
\<close>

theorem emit_calls_in_order_until_throw:
  assumes "normalRun call eventName argument l ss k"
  shows "(k = length l \<longrightarrow> emit call eventName argument (ss 0) = Some (None, ss k)) \<and>
         (\<forall>x s'. k < length l \<and> call (l ! k) argument (ss k) = (Some x, s') \<longrightarrow>
                 emit call eventName argument (ss 0) = Some (Some (Thrown x), s'))"
  using emit_normalRun [OF assms] by blast


theorem emit_calls_in_order_until_throw_witness:
  "normalRun (logged firstThrows) ''put'' ''x'' [2, 1, 3]
     (\<lambda>j. if j = 0 then ([''put'' \<mapsto> [2, 1, 3]], [], 0)
          else ([''put'' \<mapsto> [2, 1, 3]], [(2, ''x'')], 1)) 1 \<and>
   logged firstThrows 1 ''x'' ([''put'' \<mapsto> [2, 1, 3]], [(2, ''x'')], 1) =
     (Some ''boom'', [''put'' \<mapsto> [2, 1, 3]], [(2, ''x''), (1, ''x'')], 1) \<and>
   emit (logged firstThrows) ''put'' ''x'' ([''put'' \<mapsto> [2, 1, 3]], [], 0) =
     Some (Some (Thrown ''boom''), [''put'' \<mapsto> [2, 1, 3]], [(2, ''x''), (1, ''x'')], 1) \<and>
   normalRun (logged firstThrows) ''put'' ''x'' [2, 3]
     (\<lambda>j. if j = 0 then ([''put'' \<mapsto> [2, 3]], [], 0)
          else if j = 1 then ([''put'' \<mapsto> [2, 3]], [(2, ''x'')], 1)
          else ([''put'' \<mapsto> [2, 3]], [(2, ''x''), (3, ''x'')], 2)) 2 \<and>
   emit (logged firstThrows) ''put'' ''x'' ([''put'' \<mapsto> [2, 3]], [], 0) =
     Some (None, [''put'' \<mapsto> [2, 3]], [(2, ''x''), (3, ''x'')], 2)"
proof -
  let ?hs = "[''put'' \<mapsto> [2, 1, 3 :: nat]]"
  let ?ss = "\<lambda>j::nat. if j = 0 then (?hs, [], 0 :: nat) else (?hs, [(2 :: nat, ''x'')], 1)"
  have run: "normalRun (logged firstThrows) ''put'' ''x'' [2, 1, 3] ?ss 1"
    by (simp add: normalRun_def logged_def firstThrows_def le_Suc_eq)
  have throw: "logged firstThrows 1 ''x'' (?hs, [(2, ''x'')], 1) =
     (Some ''boom'', ?hs, [(2, ''x''), (1, ''x'')], 1)"
    by (simp add: logged_def firstThrows_def)
  let ?hs' = "[''put'' \<mapsto> [2, 3 :: nat]]"
  let ?ss' = "\<lambda>j::nat. if j = 0 then (?hs', [], 0 :: nat)
          else if j = 1 then (?hs', [(2 :: nat, ''x'')], 1)
          else (?hs', [(2, ''x''), (3, ''x'')], 2)"
  have run': "normalRun (logged firstThrows) ''put'' ''x'' [2, 3] ?ss' 2"
    by (simp add: normalRun_def logged_def firstThrows_def le_Suc_eq less_Suc_eq numeral_2_eq_2)
  from emit_calls_in_order_until_throw [OF run] emit_calls_in_order_until_throw [OF run'] run run' throw
  show ?thesis
    by simp
qed

text \<open>
  The claim as stated fails: handler 1 throws, and handler 2, registered after it for
  the same event, is never called (the log holds handler 1 alone, the count stays 0).
\<close>

theorem emit_throw_skips_later_handlers:
  "emit (logged firstThrows) ''put'' ''x'' ([''put'' \<mapsto> [1, 2]], [], 0) =
     Some (Some (Thrown ''boom''), [''put'' \<mapsto> [1, 2]], [(1, ''x'')], 0)"
  by (simp add: emit_def forOf.simps logged_def firstThrows_def)

text \<open>
  Outside the claim as amended. A handler that removes itself shortens the array the
  loop is walking: handler 2 moves to index 0, the loop goes on at index 1 and ends,
  and handler 2 is not called although nothing threw.
\<close>

lemma emit_skips_after_removal:
  "map_option (\<lambda>(x, hs, trace, n). (x, hs ''put'', trace, n))
     (emit (logged removesItself) ''put'' ''x'' ([''put'' \<mapsto> [1, 2]], [], 0)) =
     Some (None, Some [2], [(1, ''x'')], 0)"
  by (simp add: emit_def forOf.simps logged_def removesItself_def off_def)


lemma inherited_constructor:
  "emit call ''constructor'' argument (Map.empty, w) = Some (Some NotIterable, Map.empty, w) \<and>
   on Map.empty ''constructor'' callback = Inl TypeError \<and>
   off Map.empty ''constructor'' callback = Inl TypeError"
  by (simp add: emit_def on_def off_def inherited_def objectPrototypeNames_def)

subsection \<open>The callbacks of \<open>connect\<close>\<close>








section \<open>Properties of the records\<close>

lemma keyMatch_compositeKey:
  assumes "ty \<noteq> []" "CHR ''!'' \<notin> set ty" "ident \<noteq> []" "\<not> list_ex lineTerminator ident"
  shows "keyMatch (compositeKey ty ident) = Some (ty, ident)"
proof -
  have ne: "\<And>c. c \<in> set ty \<Longrightarrow> c \<noteq> CHR ''!''"
    using assms(2) by auto
  have "takeWhile (\<lambda>c. c \<noteq> CHR ''!'') (ty @ CHR ''!'' # ident) = ty"
    using ne by (simp add: takeWhile_append2)
  moreover have "dropWhile (\<lambda>c. c \<noteq> CHR ''!'') (ty @ CHR ''!'' # ident) = CHR ''!'' # ident"
    using ne by (simp add: dropWhile_append2)
  ultimately show ?thesis
    using assms(1,3,4) by (simp add: keyMatch_def compositeKey_def)
qed

lemma map_of_assignAll:
  "map_of (assignAll [(''id'', a), (''type'', b)] props) = (map_of props)(''id'' \<mapsto> a, ''type'' \<mapsto> b)"
  by (simp add: assignAll_def update_conv')

lemma objectAssign_id_type:
  assumes "record \<noteq> JUndefined" "record \<noteq> JNull"
  shows "\<exists>r. objectAssign record [(''id'', a), (''type'', b)] = Inr r \<and>
             getProp r ''type'' = b \<and> getProp r ''id'' = a"
  using assms by (cases "record") (simp_all add: objectAssign_def getProp_def map_of_assignAll)

text \<open>
  C8, as the code has it. For a type that is not empty and holds no \<open>!\<close>, an id that
  is not empty and holds no line terminator, and a value other than \<open>null\<close> and
  \<open>undefined\<close>: \<open>_formatRecord\<close> on the key \<open>type!id\<close> returns a record whose \<open>type\<close> and
  \<open>id\<close> are these two strings (the split is at the first \<open>!\<close>: the id may hold more),
  and the key built again from the two fields is the key it was given.
\<close>

theorem formatRecord_round_trip:
  assumes "ty \<noteq> []" "CHR ''!'' \<notin> set ty" "ident \<noteq> []" "\<not> list_ex lineTerminator ident"
    and "record \<noteq> JUndefined" "record \<noteq> JNull"
  shows "\<exists>r. formatRecord (compositeKey ty ident) record = Inr r \<and>
             getProp r ''type'' = JStr ty \<and> getProp r ''id'' = JStr ident \<and>
             (case (getProp r ''type'', getProp r ''id'') of
                (JStr t, JStr i) \<Rightarrow> compositeKey t i = compositeKey ty ident
              | _ \<Rightarrow> False)"
proof -
  obtain r where "objectAssign record [(''id'', JStr ident), (''type'', JStr ty)] = Inr r"
    "getProp r ''type'' = JStr ty" "getProp r ''id'' = JStr ident"
    using objectAssign_id_type [OF assms(5,6)] by blast
  then show ?thesis
    by (simp add: formatRecord_def keyMatch_compositeKey [OF assms(1-4)])
qed

theorem formatRecord_round_trip_witness:
  "formatRecord (compositeKey ''chat'' ''a!b'') (JObj [(''text'', JStr ''hi'')]) =
     Inr (JObj [(''text'', JStr ''hi''), (''id'', JStr ''a!b''), (''type'', JStr ''chat'')]) \<and>
   (\<exists>r. formatRecord (compositeKey ''chat'' ''a!b'') (JObj [(''text'', JStr ''hi'')]) = Inr r \<and>
        getProp r ''type'' = JStr ''chat'' \<and> getProp r ''id'' = JStr ''a!b'' \<and>
        (case (getProp r ''type'', getProp r ''id'') of
           (JStr t, JStr i) \<Rightarrow> compositeKey t i = compositeKey ''chat'' ''a!b''
         | _ \<Rightarrow> False))"
proof -
  have a: "formatRecord (compositeKey ''chat'' ''a!b'') (JObj [(''text'', JStr ''hi'')]) =
     Inr (JObj [(''text'', JStr ''hi''), (''id'', JStr ''a!b''), (''type'', JStr ''chat'')])"
    by (simp add: formatRecord_def compositeKey_def keyMatch_def lineTerminator_def
        objectAssign_def assignAll_def)
  have "''chat'' \<noteq> []" "CHR ''!'' \<notin> set ''chat''" "''a!b'' \<noteq> []"
    "\<not> list_ex lineTerminator ''a!b''" "JObj [(''text'', JStr ''hi'')] \<noteq> JUndefined"
    "JObj [(''text'', JStr ''hi'')] \<noteq> JNull"
    by (simp_all add: lineTerminator_def)
  from formatRecord_round_trip [OF this] a show ?thesis
    by blast
qed

text \<open>
  The claim as stated fails for the empty type, which holds no \<open>!\<close>: the key \<open>!x\<close>
  does not match and \<open>_formatRecord\<close> throws.
\<close>

theorem formatRecord_empty_type_throws:
  "CHR ''!'' \<notin> set '''' \<and> ''x'' \<noteq> [] \<and>
   formatRecord (compositeKey '''' ''x'') (JObj []) = Inl TypeError"
  by (simp add: formatRecord_def compositeKey_def keyMatch_def)

text \<open>An id with a line feed, and the value \<open>null\<close>, make it throw as well.\<close>

lemma formatRecord_other_throws:
  "formatRecord (compositeKey ''chat'' [CHR ''a'', CHR 0x0A, CHR ''b'']) (JObj []) = Inl TypeError \<and>
   formatRecord (compositeKey ''chat'' ''1'') JNull = Inl TypeError"
  by (simp add: formatRecord_def compositeKey_def keyMatch_def lineTerminator_def objectAssign_def)

subsection \<open>\<open>delete\<close> against a store\<close>

lemma dropWhile_unchanged: "xs = [] \<or> \<not> P (hd xs) \<Longrightarrow> dropWhile P xs = xs"
  by (cases xs) auto

text \<open>A key that neither begins nor ends with a slash is addressed as it is.\<close>

lemma makeUrl_compositeKey:
  assumes "ty = [] \<or> hd ty \<noteq> CHR ''/''" "ident = [] \<or> last ident \<noteq> CHR ''/''"
  shows "makeUrl url (compositeKey ty ident) = url @ ''/'' @ ty @ ''!'' @ ident @ ''.json''"
proof -
  let ?key = "ty @ CHR ''!'' # ident"
  have "?key = [] \<or> \<not> (hd ?key = CHR ''/'')"
    using assms(1) by (cases ty) auto
  then have front: "dropWhile (\<lambda>c. c = CHR ''/'') ?key = ?key"
    by (rule dropWhile_unchanged)
  have "rev ?key = [] \<or> \<not> (hd (rev ?key) = CHR ''/'')"
    using assms(2) by (cases ident rule: rev_cases) auto
  then have rear: "dropWhile (\<lambda>c. c = CHR ''/'') (rev ?key) = rev ?key"
    by (rule dropWhile_unchanged)
  have "stripSlashes ?key = ?key"
    unfolding stripSlashes_def front rear by simp
  then show ?thesis
    by (simp add: makeUrl_def compositeKey_def)
qed

text \<open>What \<open>update\<close> does to a store whose \<open>PUT\<close> replaces the node at the URL.\<close>

lemma update_store:
  assumes "putReplaces xhr stored"
  shows "snd (update xhr url ty ident val st) =
     st(makeUrl url (compositeKey ty ident) \<mapsto>
          stored (jsonStringify [(''timestamp'', JObj [(''.sv'', JStr ''timestamp'')]), (''value'', val)]))"
proof -
  from assms have "xhr ''PUT'' u b st = ((200, stored b), st(u \<mapsto> stored b))" for u b
    by (simp add: putReplaces_def)
  then show ?thesis
    by (simp add: update_def put_def client_update_def request_def Let_def split: sum.splits prod.splits)
qed

text \<open>
  C7. For a store in which a \<open>PUT\<close> replaces the node at the URL and which adds no
  member of its own: \<open>delete(type, id)\<close> is \<open>update(type, id, undefined)\<close>; it leaves
  every other node as it was and puts at the URL of the key \<open>type!id\<close> the node the
  store makes of the timestamp placeholder alone, a node without a \<open>value\<close> member, so
  the key is kept and its value is gone. A write of a value puts at the same URL the
  node the store makes of the placeholder and that value. For a key that neither
  begins nor ends with a slash the URL is \<open>url/type!id.json\<close>.
\<close>

theorem delete_removes_value:
  assumes "putReplaces xhr stored"
  shows "delete xhr url ty ident st = update xhr url ty ident JUndefined st \<and>
         snd (delete xhr url ty ident st) =
           st(makeUrl url (compositeKey ty ident) \<mapsto>
                stored (JObj [(''timestamp'', JObj [(''.sv'', JStr ''timestamp'')])])) \<and>
         getProp (stored (JObj [(''timestamp'', JObj [(''.sv'', JStr ''timestamp'')])])) ''value''
           = JUndefined \<and>
         (val \<noteq> JUndefined \<longrightarrow>
            snd (update xhr url ty ident val st) =
              st(makeUrl url (compositeKey ty ident) \<mapsto>
                   stored (JObj [(''timestamp'', JObj [(''.sv'', JStr ''timestamp'')]),
                                 (''value'', stringify val)]))) \<and>
         ((ty = [] \<or> hd ty \<noteq> CHR ''/'') \<and> (ident = [] \<or> last ident \<noteq> CHR ''/'') \<longrightarrow>
            makeUrl url (compositeKey ty ident) = url @ ''/'' @ ty @ ''!'' @ ident @ ''.json'')"
proof (intro conjI impI)
  show "delete xhr url ty ident st = update xhr url ty ident JUndefined st"
    by (simp add: delete_def)
  show "snd (delete xhr url ty ident st) =
           st(makeUrl url (compositeKey ty ident) \<mapsto>
                stored (JObj [(''timestamp'', JObj [(''.sv'', JStr ''timestamp'')])]))"
    unfolding delete_def update_store [OF assms] by (simp add: jsonStringify_def)
  have "getProp (JObj [(''timestamp'', JObj [(''.sv'', JStr ''timestamp'')])]) ''value'' = JUndefined"
    by (simp add: getProp_def)
  with assms
  show "getProp (stored (JObj [(''timestamp'', JObj [(''.sv'', JStr ''timestamp'')])])) ''value''
           = JUndefined"
    unfolding putReplaces_def by blast
  show "snd (update xhr url ty ident val st) =
              st(makeUrl url (compositeKey ty ident) \<mapsto>
                   stored (JObj [(''timestamp'', JObj [(''.sv'', JStr ''timestamp'')]),
                                 (''value'', stringify val)]))"
    if "val \<noteq> JUndefined"
    unfolding update_store [OF assms] using that by (simp add: jsonStringify_def)
  show "makeUrl url (compositeKey ty ident) = url @ ''/'' @ ty @ ''!'' @ ident @ ''.json''"
    if "(ty = [] \<or> hd ty \<noteq> CHR ''/'') \<and> (ident = [] \<or> last ident \<noteq> CHR ''/'')"
    using that by (simp add: makeUrl_compositeKey)
qed

lemma map_of_map_values:
  "map_of (map (\<lambda>(k, v). (k, f k v)) props) k = map_option (f k) (map_of props k)"
  by (induction props) auto

lemma getProp_resolved7:
  assumes "getProp body k = JUndefined"
  shows "getProp (resolved7 body) k = JUndefined"
proof (cases "\<exists>props. body = JObj props")
  case True
  then obtain props where body: "body = JObj props" by blast
  with assms have "map_of props k = None \<or> map_of props k = Some JUndefined"
    by (simp add: getProp_def split: option.splits)
  moreover have "resolve7 k JUndefined = JUndefined"
    by (simp add: resolve7_def)
  ultimately have "map_of (map (\<lambda>(k, v). (k, resolve7 k v)) props) k = None \<or>
      map_of (map (\<lambda>(k, v). (k, resolve7 k v)) props) k = Some JUndefined"
    unfolding map_of_map_values by auto
  then show ?thesis
    unfolding body resolved7_def getProp_def by auto
next
  case False
  then have "resolved7 body = body"
    by (cases body) (simp_all add: resolved7_def)
  with assms show ?thesis by simp
qed

lemma putReplaces_exampleStore: "putReplaces exampleStore resolved7"
  unfolding putReplaces_def
proof (intro conjI allI impI)
  fix url body and st :: "string \<rightharpoonup> jsvalue"
  show "exampleStore ''PUT'' url body st = ((200, resolved7 body), st(url \<mapsto> resolved7 body))"
    by (simp add: exampleStore_def)
next
  fix body k
  assume "getProp body k = JUndefined"
  then show "getProp (resolved7 body) k = JUndefined"
    by (rule getProp_resolved7)
qed

theorem delete_removes_value_witness:
  "putReplaces exampleStore resolved7 \<and>
   snd (update exampleStore ''https://db.example/room'' ''chat'' ''1'' (JStr ''hi'') Map.empty)
     ''https://db.example/room/chat!1.json''
     = Some (JObj [(''timestamp'', JNum 7), (''value'', JStr ''hi'')]) \<and>
   snd (delete exampleStore ''https://db.example/room'' ''chat'' ''1''
          (snd (update exampleStore ''https://db.example/room'' ''chat'' ''1'' (JStr ''hi'') Map.empty)))
     ''https://db.example/room/chat!1.json''
     = Some (JObj [(''timestamp'', JNum 7)]) \<and>
   getProp (JObj [(''timestamp'', JNum 7)]) ''value'' = JUndefined"
proof -
  let ?url = "''https://db.example/room''"
  let ?st1 = "snd (update exampleStore ?url ''chat'' ''1'' (JStr ''hi'') Map.empty)"
  note t = delete_removes_value [OF putReplaces_exampleStore,
      where url = ?url and ty = "''chat''" and ident = "''1''"]
  have "makeUrl ?url (compositeKey ''chat'' ''1'') = ?url @ ''/'' @ ''chat'' @ ''!'' @ ''1'' @ ''.json''"
    using t [of Map.empty "JStr ''hi''"] by simp
  then have u: "makeUrl ?url (compositeKey ''chat'' ''1'') = ''https://db.example/room/chat!1.json''"
    by simp
  have "snd (update exampleStore ?url ''chat'' ''1'' (JStr ''hi'') Map.empty) =
      Map.empty(makeUrl ?url (compositeKey ''chat'' ''1'') \<mapsto>
         resolved7 (JObj [(''timestamp'', JObj [(''.sv'', JStr ''timestamp'')]),
                          (''value'', stringify (JStr ''hi''))]))"
    using t [of Map.empty "JStr ''hi''"] by blast
  then have a: "?st1 ''https://db.example/room/chat!1.json''
     = Some (JObj [(''timestamp'', JNum 7), (''value'', JStr ''hi'')])"
    by (simp add: u resolved7_def resolve7_def)
  have "snd (delete exampleStore ?url ''chat'' ''1'' ?st1) =
      ?st1(makeUrl ?url (compositeKey ''chat'' ''1'') \<mapsto>
         resolved7 (JObj [(''timestamp'', JObj [(''.sv'', JStr ''timestamp'')])]))"
    using t [of ?st1 "JStr ''hi''"] by blast
  then have b: "snd (delete exampleStore ?url ''chat'' ''1'' ?st1) ''https://db.example/room/chat!1.json''
     = Some (JObj [(''timestamp'', JNum 7)])"
    by (simp add: u resolved7_def resolve7_def)
  have c: "getProp (JObj [(''timestamp'', JNum 7)]) ''value'' = JUndefined"
    by (simp add: getProp_def)
  from putReplaces_exampleStore a b c show ?thesis
    by blast
qed

text \<open>
  C9. The comparison function is not consistent: of two participants it reports each
  as greater than the other, and it never reports less. Under the first insertion sort
  two participants come out in reverse order; under the second nothing moves and a
  participant stays behind a chat record, or behind the record \<open>meta!lastConnect\<close>.
\<close>

theorem requestRoomData_not_stable_partition:
  "toNumber (participantLast (JObj [(''id'', JStr ''1''), (''type'', JStr ''participant'')])
                            (JObj [(''id'', JStr ''2''), (''type'', JStr ''participant'')])) = 1 \<and>
   toNumber (participantLast (JObj [(''id'', JStr ''2''), (''type'', JStr ''participant'')])
                            (JObj [(''id'', JStr ''1''), (''type'', JStr ''participant'')])) = 1 \<and>
   requestRoomData sortByGreater twoParticipants url st =
     (Inr [JObj [(''name'', JStr ''B''), (''id'', JStr ''2''), (''type'', JStr ''participant'')],
           JObj [(''name'', JStr ''A''), (''id'', JStr ''1''), (''type'', JStr ''participant'')]], st) \<and>
   requestRoomData sortByLess chatThenParticipant url st =
     (Inr [JObj [(''text'', JStr ''hi''), (''id'', JStr ''9''), (''type'', JStr ''chat'')],
           JObj [(''name'', JStr ''A''), (''id'', JStr ''1''), (''type'', JStr ''participant'')]], st) \<and>
   requestRoomData sortByLess metaThenParticipant url st =
     (Inr [JObj [(''timestamp'', JNum 5), (''id'', JStr ''lastConnect''), (''type'', JStr ''meta'')],
           JObj [(''name'', JStr ''A''), (''id'', JStr ''1''), (''type'', JStr ''participant'')]], st)"
proof -
  note defs = requestRoomData_def get_def request_def recordsFormatter_def formatRecord_def
    keyMatch_def lineTerminator_def objectAssign_def assignAll_def insertionSort_def
    insertLeft_def participantLast_def toNumber_def getProp_def
  have "toNumber (participantLast (JObj [(''id'', JStr ''1''), (''type'', JStr ''participant'')])
                            (JObj [(''id'', JStr ''2''), (''type'', JStr ''participant'')])) = 1"
    by (simp add: participantLast_def toNumber_def getProp_def)
  moreover
  have "toNumber (participantLast (JObj [(''id'', JStr ''2''), (''type'', JStr ''participant'')])
                            (JObj [(''id'', JStr ''1''), (''type'', JStr ''participant'')])) = 1"
    by (simp add: participantLast_def toNumber_def getProp_def)
  moreover
  have "requestRoomData sortByGreater twoParticipants url st =
     (Inr [JObj [(''name'', JStr ''B''), (''id'', JStr ''2''), (''type'', JStr ''participant'')],
           JObj [(''name'', JStr ''A''), (''id'', JStr ''1''), (''type'', JStr ''participant'')]], st)"
    by (simp add: defs twoParticipants_def sortByGreater_def)
  moreover
  have "requestRoomData sortByLess chatThenParticipant url st =
     (Inr [JObj [(''text'', JStr ''hi''), (''id'', JStr ''9''), (''type'', JStr ''chat'')],
           JObj [(''name'', JStr ''A''), (''id'', JStr ''1''), (''type'', JStr ''participant'')]], st)"
    by (simp add: defs chatThenParticipant_def sortByLess_def)
  moreover
  have "requestRoomData sortByLess metaThenParticipant url st =
     (Inr [JObj [(''timestamp'', JNum 5), (''id'', JStr ''lastConnect''), (''type'', JStr ''meta'')],
           JObj [(''name'', JStr ''A''), (''id'', JStr ''1''), (''type'', JStr ''participant'')]], st)"
    by (simp add: defs metaThenParticipant_def sortByLess_def)
  ultimately show ?thesis
    by (intro conjI)
qed

lemma toNumber_participantLast_nonneg: "0 \<le> toNumber (participantLast a b)"
  by (simp add: toNumber_def)

end
